theory Spec2Isabelle
  imports Main
begin

section \<open>Data model of \<^verbatim>\<open>grammar.py\<close>\<close>

text \<open>
  The exceptions the modelled code can raise. \<open>ValueError\<close> is raised by
  \<^verbatim>\<open>_build_span_map\<close> on a misaligned right side, \<open>KeyError\<close> by a dictionary
  lookup of an unbound string variable, \<open>IndexError\<close> by indexing an empty tuple or a
  token position outside the input, \<open>UnboundLocalError\<close> by reading a local variable
  that no loop has bound, \<open>TypeError\<close> by unpacking \<^verbatim>\<open>None\<close> and
  \<open>AttributeError\<close> by reading an attribute of \<^verbatim>\<open>None\<close>.
\<close>

datatype error = ValueError | KeyError | IndexError | UnboundLocalError | TypeError | AttributeError

text \<open>
  A string variable of a rule element is an integer id in an ordinary rule and a terminal
  word in a lexical rule (the code stores both in the same tuples).
\<close>

datatype strvar = Id nat | Word string

type_synonym StringVariables = "strvar list"

text \<open>A span is the pair \<^verbatim>\<open>(begin, end)\<close>.\<close>

type_synonym SpanIndices = "nat \<times> nat"

record MCFGRuleElement =
  variable :: string
  string_variables :: "StringVariables list"

record MCFGRuleElementInstance =
  inst_variable :: string
  string_spans :: "SpanIndices list"

record MCFGRule =
  left_side :: MCFGRuleElement
  right_side :: "MCFGRuleElement list"

type_synonym SpanMap = "strvar \<rightharpoonup> SpanIndices"

definition unique_string_variables :: "MCFGRuleElement \<Rightarrow> strvar set" where
  "unique_string_variables el = set (concat (string_variables el))"

definition is_epsilon :: "MCFGRule \<Rightarrow> bool" where
  "is_epsilon r \<longleftrightarrow> length (right_side r) = 0"

text \<open>
  \<^verbatim>\<open>MCFGRule._validate\<close>, run by the constructor: the right-side elements share no
  string variable, and a rule with a right side uses on its left exactly the variables of
  its right.
\<close>

fun sharing :: "strvar set list \<Rightarrow> bool" where
  "sharing [] = False"
| "sharing (vs1 # rest) = ((\<exists>vs2 \<in> set rest. vs1 \<inter> vs2 \<noteq> {}) \<or> sharing rest)"

definition validate :: "MCFGRule \<Rightarrow> error + unit" where
  "validate r =
     (if sharing (map unique_string_variables (right_side r)) then Inl ValueError
      else if \<not> is_epsilon r \<and>
              unique_string_variables (left_side r)
                \<noteq> (\<Union>el \<in> set (right_side r). unique_string_variables el)
           then Inl ValueError
      else Inr ())"

subsection \<open>Alignment and the span map\<close>

text \<open>\<^verbatim>\<open>MCFGRule._right_side_aligns\<close>.\<close>

definition right_side_aligns :: "MCFGRule \<Rightarrow> MCFGRuleElementInstance list \<Rightarrow> bool" where
  "right_side_aligns r rs =
     (if length rs = length (right_side r) then
        (let vars_match =
               list_all (\<lambda>(elem, eleminst). variable elem = inst_variable eleminst)
                 (zip (right_side r) rs);
             strvars_match =
               list_all (\<lambda>(elem, eleminst).
                           length (string_variables elem) = length (string_spans eleminst))
                 (zip (right_side r) rs)
         in vars_match \<and> strvars_match)
      else False)"

text \<open>
  The dictionary comprehension of \<^verbatim>\<open>_build_span_map\<close>: every pair of a declared
  component and a span binds the component's first variable \<^verbatim>\<open>strvar[0]\<close> (an
  \<open>IndexError\<close> on an empty component); a later binding of a key replaces an earlier one.
\<close>

fun bind_spans :: "(StringVariables \<times> SpanIndices) list \<Rightarrow> SpanMap \<Rightarrow> error + SpanMap" where
  "bind_spans [] m = Inr m"
| "bind_spans (([], strspan) # ps) m = Inl IndexError"
| "bind_spans ((v # _, strspan) # ps) m = bind_spans ps (m(v \<mapsto> strspan))"

definition build_span_map :: "MCFGRule \<Rightarrow> MCFGRuleElementInstance list \<Rightarrow> error + SpanMap" where
  "build_span_map r rs =
     (if right_side_aligns r rs then
        bind_spans
          (concat (map (\<lambda>(elem, eleminst). zip (string_variables elem) (string_spans eleminst))
                       (zip (right_side r) rs)))
          Map.empty
      else Inl ValueError)"

subsection \<open>Instantiating the left side\<close>

definition lookup :: "SpanMap \<Rightarrow> strvar \<Rightarrow> error + SpanIndices" where
  "lookup span_map v = (case span_map v of None \<Rightarrow> Inl KeyError | Some s \<Rightarrow> Inr s)"

text \<open>
  The inner loop \<^verbatim>\<open>for i in range(1, len(vs))\<close>: it compares the end of
  \<^verbatim>\<open>span_map[vs[i-1]]\<close> with the begin of \<^verbatim>\<open>span_map[vs[i]]\<close>, in order;
  \<open>Inr False\<close> is the early \<^verbatim>\<open>return None\<close>.
\<close>

fun check_adjacent :: "SpanMap \<Rightarrow> StringVariables \<Rightarrow> error + bool" where
  "check_adjacent span_map (a # b # vs) =
     (case lookup span_map a of
        Inl e \<Rightarrow> Inl e
      | Inr span_prev \<Rightarrow>
          (case lookup span_map b of
             Inl e \<Rightarrow> Inl e
           | Inr span_curr \<Rightarrow>
               if snd span_prev \<noteq> fst span_curr then Inr False
               else check_adjacent span_map (b # vs)))"
| "check_adjacent span_map vs = Inr True"

text \<open>
  One pass of the outer loop: the adjacency checks, then \<^verbatim>\<open>span_map[vs[0]][0]\<close>
  and \<^verbatim>\<open>span_map[vs[-1]][1]\<close>.
\<close>

definition component_span :: "SpanMap \<Rightarrow> StringVariables \<Rightarrow> error + SpanIndices option" where
  "component_span span_map vs =
     (case check_adjacent span_map vs of
        Inl e \<Rightarrow> Inl e
      | Inr False \<Rightarrow> Inr None
      | Inr True \<Rightarrow>
          (case vs of
             [] \<Rightarrow> Inl IndexError
           | v0 # _ \<Rightarrow>
               (case lookup span_map v0 of
                  Inl e \<Rightarrow> Inl e
                | Inr span_first \<Rightarrow>
                    (case lookup span_map (last vs) of
                       Inl e \<Rightarrow> Inl e
                     | Inr span_last \<Rightarrow> Inr (Some (fst span_first, snd span_last))))))"

fun left_spans ::
  "SpanMap \<Rightarrow> StringVariables list \<Rightarrow> SpanIndices list \<Rightarrow> error + SpanIndices list option" where
  "left_spans span_map [] new_spans = Inr (Some new_spans)"
| "left_spans span_map (vs # rest) new_spans =
     (case component_span span_map vs of
        Inl e \<Rightarrow> Inl e
      | Inr None \<Rightarrow> Inr None
      | Inr (Some sp) \<Rightarrow> left_spans span_map rest (new_spans @ [sp]))"

text \<open>
  The part of \<^verbatim>\<open>instantiate_left_side\<close> after the \<open>\<epsilon>\<close>-rule test. \<open>Inr None\<close> is
  the no-match value \<^verbatim>\<open>None\<close>.
\<close>

definition concatenate_spans ::
  "MCFGRule \<Rightarrow> MCFGRuleElementInstance list \<Rightarrow> error + MCFGRuleElementInstance option" where
  "concatenate_spans r rs =
     (case build_span_map r rs of
        Inl e \<Rightarrow> Inl e
      | Inr span_map \<Rightarrow>
          (case left_spans span_map (string_variables (left_side r)) [] of
             Inl e \<Rightarrow> Inl e
           | Inr None \<Rightarrow> Inr None
           | Inr (Some new_spans) \<Rightarrow>
               Inr (Some \<lparr>inst_variable = variable (left_side r), string_spans = new_spans\<rparr>)))"

text \<open>\<^verbatim>\<open>tuple(v[0] for v in self._left_side.string_variables)\<close>.\<close>

fun first_variables :: "StringVariables list \<Rightarrow> error + strvar list" where
  "first_variables [] = Inr []"
| "first_variables ([] # rest) = Inl IndexError"
| "first_variables ((v # _) # rest) =
     (case first_variables rest of Inl e \<Rightarrow> Inl e | Inr vs \<Rightarrow> Inr (v # vs))"

definition instantiate_left_side ::
  "MCFGRule \<Rightarrow> MCFGRuleElementInstance list \<Rightarrow> error + MCFGRuleElementInstance option" where
  "instantiate_left_side r rs =
     (if is_epsilon r then
        (case first_variables (string_variables (left_side r)) of
           Inl e \<Rightarrow> Inl e
         | Inr strvars \<Rightarrow>
             (let strconst = map (\<lambda>el. Word (inst_variable el)) rs
              in if strconst = strvars then
                   Inr (Some \<lparr>inst_variable = variable (left_side r),
                              string_spans = concat (map string_spans rs)\<rparr>)
                 else concatenate_spans r rs))
      else concatenate_spans r rs)"

section \<open>The grammar\<close>

text \<open>
  The grammar holds its rules and start variables in Python sets. A list stands for each
  set in the order the set is iterated; the parser reads nothing else of the grammar.
\<close>

record MultipleContextFreeGrammar =
  rules :: "MCFGRule list"
  start_variables :: "MCFGRuleElement list"

text \<open>\<^verbatim>\<open>rule.left_side.string_variables[0][0]\<close>.\<close>

definition first_literal :: "MCFGRule \<Rightarrow> error + strvar" where
  "first_literal rule =
     (case string_variables (left_side rule) of
        [] \<Rightarrow> Inl IndexError
      | [] # _ \<Rightarrow> Inl IndexError
      | (v # _) # _ \<Rightarrow> Inr v)"

text \<open>
  \<^verbatim>\<open>parts_of_speech(word)\<close>: the \<open>\<epsilon>\<close>-rules whose first literal is the word.
\<close>

fun lexical_rules :: "MCFGRule list \<Rightarrow> string \<Rightarrow> error + MCFGRule list" where
  "lexical_rules [] word = Inr []"
| "lexical_rules (rule # rest) word =
     (if is_epsilon rule then
        (case first_literal rule of
           Inl e \<Rightarrow> Inl e
         | Inr v \<Rightarrow>
             (case lexical_rules rest word of
                Inl e \<Rightarrow> Inl e
              | Inr found \<Rightarrow> Inr (if v = Word word then rule # found else found)))
      else lexical_rules rest word)"

definition parts_of_speech :: "MultipleContextFreeGrammar \<Rightarrow> string \<Rightarrow> error + MCFGRule list" where
  "parts_of_speech g word = lexical_rules (rules g) word"

text \<open>\<^verbatim>\<open>reduce(*right_side)\<close>: the rules whose right side aligns with the instances.\<close>

definition reduce ::
  "MultipleContextFreeGrammar \<Rightarrow> MCFGRuleElementInstance list \<Rightarrow> MCFGRule list" where
  "reduce g rs = filter (\<lambda>r. right_side_aligns r rs) (rules g)"

section \<open>The agenda-based parser of \<^verbatim>\<open>abparser.py\<close>\<close>

text \<open>
  A back-pointer tuple holds \<^verbatim>\<open>(None, None)\<close> in a seed entry and two
  \<^verbatim>\<open>(index, variable)\<close> pairs in a derived entry; the constructor wraps the one
  tuple it is given in another tuple.
\<close>

record ABEntry =
  symbol :: MCFGRuleElementInstance
  index :: nat
  backpointers :: "(nat \<times> string) option list list"

datatype Tree = Tree (data: string) (children: "Tree list")

subsection \<open>Seeding the agenda\<close>

text \<open>
  The inner seeding loop appends one entry with index 0 for every lexical rule of the
  word. The symbol of an entry is an instance: \<^verbatim>\<open>instantiate_left_side\<close> of an
  \<open>\<epsilon>\<close>-rule on one instance returns an instance or raises (lemma
  \<open>lexical_instance_not_None\<close> below), so the \<open>None\<close> branch here is never taken.
\<close>

fun seed_rules :: "MCFGRule list \<Rightarrow> string \<Rightarrow> nat \<Rightarrow> ABEntry list \<Rightarrow> error + ABEntry list" where
  "seed_rules [] word idx agenda = Inr agenda"
| "seed_rules (rule # rest) word idx agenda =
     (case instantiate_left_side rule [\<lparr>inst_variable = word, string_spans = [(idx, idx + 1)]\<rparr>] of
        Inl e \<Rightarrow> Inl e
      | Inr None \<Rightarrow> Inl AttributeError
      | Inr (Some s) \<Rightarrow>
          seed_rules rest word idx
            (agenda @ [\<lparr>symbol = s, index = 0, backpointers = [[None, None]]\<rparr>]))"

fun seed_words ::
  "MultipleContextFreeGrammar \<Rightarrow> (nat \<times> string) list \<Rightarrow> ABEntry list \<Rightarrow> error + ABEntry list" where
  "seed_words g [] agenda = Inr agenda"
| "seed_words g ((idx, word) # rest) agenda =
     (case parts_of_speech g word of
        Inl e \<Rightarrow> Inl e
      | Inr possible_rules \<Rightarrow>
          (case seed_rules possible_rules word idx agenda of
             Inl e \<Rightarrow> Inl e
           | Inr agenda' \<Rightarrow> seed_words g rest agenda'))"

text \<open>\<^verbatim>\<open>for n, e in enumerate(agenda): e._index = n\<close>.\<close>

definition renumber :: "ABEntry list \<Rightarrow> ABEntry list" where
  "renumber agenda = map (\<lambda>(n, e). e\<lparr>index := n\<rparr>) (enumerate 0 agenda)"

subsection \<open>Combining two entries\<close>

text \<open>
  \<^verbatim>\<open>tuple(i for i in [r.instantiate_left_side(...) for r in possible_rules] if i is not None)\<close>:
  the list is built first, so the first raising rule raises.
\<close>

fun instantiate_all ::
  "MCFGRule list \<Rightarrow> MCFGRuleElementInstance list \<Rightarrow> error + MCFGRuleElementInstance list" where
  "instantiate_all [] rs = Inr []"
| "instantiate_all (r # rest) rs =
     (case instantiate_left_side r rs of
        Inl e \<Rightarrow> Inl e
      | Inr i \<Rightarrow>
          (case instantiate_all rest rs of
             Inl e \<Rightarrow> Inl e
           | Inr found \<Rightarrow> Inr (case i of None \<Rightarrow> found | Some c \<Rightarrow> c # found)))"

definition combine ::
  "MultipleContextFreeGrammar \<Rightarrow> ABEntry \<Rightarrow> ABEntry
     \<Rightarrow> error + (nat \<times> MCFGRuleElementInstance list option)" where
  "combine g current element =
     (if reduce g [symbol current, symbol element] = [] then
        (if reduce g [symbol element, symbol current] = [] then Inr (0, None)
         else
           (case instantiate_all (reduce g [symbol element, symbol current])
                   [symbol element, symbol current] of
              Inl e \<Rightarrow> Inl e
            | Inr result \<Rightarrow> Inr (1, Some result)))
      else
        (case instantiate_all (reduce g [symbol current, symbol element])
                [symbol current, symbol element] of
           Inl e \<Rightarrow> Inl e
         | Inr result \<Rightarrow> Inr (0, Some result)))"

subsection \<open>Filling the chart\<close>

text \<open>The loop \<^verbatim>\<open>for c in combination\<close>, on the agenda and \<^verbatim>\<open>next_id\<close>.\<close>

fun add_parses ::
  "nat \<Rightarrow> ABEntry \<Rightarrow> ABEntry \<Rightarrow> MCFGRuleElementInstance list \<Rightarrow> ABEntry list \<times> nat
     \<Rightarrow> ABEntry list \<times> nat" where
  "add_parses r current element [] (agenda, next_id) = (agenda, next_id)"
| "add_parses r current element (c # rest) (agenda, next_id) =
     (let new_parse =
        (if r \<noteq> 0 then
           \<lparr>symbol = c, index = next_id,
            backpointers = [[Some (index element, inst_variable (symbol element)),
                             Some (index current, inst_variable (symbol current))]]\<rparr>
         else
           \<lparr>symbol = c, index = next_id,
            backpointers = [[Some (index current, inst_variable (symbol current)),
                             Some (index element, inst_variable (symbol element))]]\<rparr>)
      in add_parses r current element rest (agenda @ [new_parse], next_id + 1))"

text \<open>
  The loop \<^verbatim>\<open>for element in chart\<close>; \<^verbatim>\<open>if combination:\<close> holds for a non-empty
  tuple only.
\<close>

fun scan_chart ::
  "MultipleContextFreeGrammar \<Rightarrow> ABEntry \<Rightarrow> ABEntry list \<Rightarrow> ABEntry list \<times> nat
     \<Rightarrow> error + ABEntry list \<times> nat" where
  "scan_chart g current [] (agenda, next_id) = Inr (agenda, next_id)"
| "scan_chart g current (element # rest) (agenda, next_id) =
     (case combine g current element of
        Inl e \<Rightarrow> Inl e
      | Inr (r, combination) \<Rightarrow>
          (case combination of
             None \<Rightarrow> scan_chart g current rest (agenda, next_id)
           | Some [] \<Rightarrow> scan_chart g current rest (agenda, next_id)
           | Some (c # cs) \<Rightarrow>
               scan_chart g current rest
                 (add_parses r current element (c # cs) (agenda, next_id))))"

record fill_state =
  agenda :: "ABEntry list"
  chart :: "ABEntry list"
  chart_ids :: "nat set"
  next_id :: nat

text \<open>
  The state before the \<^verbatim>\<open>while\<close> loop. The variable \<^verbatim>\<open>n\<close> of
  \<^verbatim>\<open>next_id = n+1\<close> is bound only by the two \<^verbatim>\<open>enumerate\<close> loops, each of
  which runs its body only when the agenda ends up non-empty; on an empty agenda the
  read raises \<open>UnboundLocalError\<close>, otherwise \<^verbatim>\<open>n\<close> is the last index of the
  agenda.
\<close>

definition initial_state :: "MultipleContextFreeGrammar \<Rightarrow> string list \<Rightarrow> error + fill_state" where
  "initial_state g string =
     (case seed_words g (enumerate 0 string) [] of
        Inl e \<Rightarrow> Inl e
      | Inr seeds \<Rightarrow>
          if seeds = [] then Inl UnboundLocalError
          else Inr \<lparr>agenda = renumber seeds, chart = [], chart_ids = {},
                    next_id = (length seeds - 1) + 1\<rparr>)"

text \<open>One pass of the \<^verbatim>\<open>while agenda\<close> loop, on a state whose agenda is not empty.\<close>

definition fill_step :: "MultipleContextFreeGrammar \<Rightarrow> fill_state \<Rightarrow> error + fill_state" where
  "fill_step g st =
     (let current = hd (agenda st) in
      case scan_chart g current (chart st) (tl (agenda st), next_id st) of
        Inl e \<Rightarrow> Inl e
      | Inr (agenda', next_id') \<Rightarrow>
          if index current \<notin> chart_ids st then
            Inr \<lparr>agenda = agenda', chart = chart st @ [current],
                 chart_ids = insert (index current) (chart_ids st), next_id = next_id'\<rparr>
          else
            Inr \<lparr>agenda = agenda', chart = chart st, chart_ids = chart_ids st,
                 next_id = next_id'\<rparr>)"

text \<open>
  The \<^verbatim>\<open>while agenda\<close> loop. It need not terminate, so the result is an option:
  \<open>None\<close> means the loop runs forever, \<open>Some (Inl e)\<close> that it raises \<open>e\<close>, and
  \<open>Some (Inr chart)\<close> that it returns the chart.
\<close>

partial_function (option) fill_loop ::
  "MultipleContextFreeGrammar \<Rightarrow> fill_state \<Rightarrow> (error + ABEntry list) option" where
  "fill_loop g st =
     (if agenda st = [] then Some (Inr (chart st))
      else (case fill_step g st of
              Inl e \<Rightarrow> Some (Inl e)
            | Inr st' \<Rightarrow> fill_loop g st'))"

definition fill_chart ::
  "MultipleContextFreeGrammar \<Rightarrow> string list \<Rightarrow> (error + ABEntry list) option" where
  "fill_chart g string =
     (case initial_state g string of
        Inl e \<Rightarrow> Some (Inl e)
      | Inr st \<Rightarrow> fill_loop g st)"

subsection \<open>Recognition\<close>

text \<open>
  The list comprehension shared by \<^verbatim>\<open>_recognize\<close> and \<^verbatim>\<open>_parse\<close>: the entries
  whose variable is a start-variable name and whose spans are \<^verbatim>\<open>((0, len(string)),)\<close>.
\<close>

definition start_nodes ::
  "MultipleContextFreeGrammar \<Rightarrow> ABEntry list \<Rightarrow> string list \<Rightarrow> ABEntry list" where
  "start_nodes g entries string =
     (let sv = set (map variable (start_variables g))
      in filter (\<lambda>entry. inst_variable (symbol entry) \<in> sv \<and>
                         string_spans (symbol entry) = [(0, length string)]) entries)"

text \<open>
  Python's truth value of an \<^verbatim>\<open>ABEntry\<close>: the class defines neither
  \<^verbatim>\<open>__bool__\<close> nor \<^verbatim>\<open>__len__\<close>, so every entry is true.
\<close>

definition entry_truth :: "ABEntry \<Rightarrow> bool" where
  "entry_truth entry = True"

definition recognize ::
  "MultipleContextFreeGrammar \<Rightarrow> string list \<Rightarrow> (error + bool) option" where
  "recognize g string =
     (case fill_chart g string of
        None \<Rightarrow> None
      | Some (Inl e) \<Rightarrow> Some (Inl e)
      | Some (Inr filled) \<Rightarrow> Some (Inr (list_ex entry_truth (start_nodes g filled string))))"

subsection \<open>Forest extraction\<close>

text \<open>\<^verbatim>\<open>_get_item\<close>: the first entry of the inventory with the index, or \<^verbatim>\<open>None\<close>.\<close>

definition get_item :: "ABEntry list \<Rightarrow> nat \<Rightarrow> ABEntry option" where
  "get_item inventory idx = find (\<lambda>i. index i = idx) inventory"

text \<open>
  The test that opens \<^verbatim>\<open>_construct_parses\<close>:
  \<^verbatim>\<open>not entry.backpointers or not any(bp for bps in entry.backpointers for bp in bps)\<close>.
  \<^verbatim>\<open>None\<close> is false and a pair is true.
\<close>

definition is_leaf :: "ABEntry \<Rightarrow> bool" where
  "is_leaf entry \<longleftrightarrow>
     backpointers entry = [] \<or> \<not> list_ex (\<lambda>bp. bp \<noteq> None) (concat (backpointers entry))"

text \<open>
  The label of a leaf:
  \<^verbatim>\<open>''.join([entry.symbol.variable, '(', string[entry.symbol.string_spans[0][0]], ')'])\<close>.
\<close>

definition leaf_label :: "string list \<Rightarrow> ABEntry \<Rightarrow> error + string" where
  "leaf_label string entry =
     (case string_spans (symbol entry) of
        [] \<Rightarrow> Inl IndexError
      | (b, _) # _ \<Rightarrow>
          if b < length string then
            Inr (inst_variable (symbol entry) @ ''('' @ string ! b @ '')'')
          else Inl IndexError)"

text \<open>
  Running a computation on each element of a list in order, as the nested loops over the
  back-pointers do: the first computation that does not return (\<open>None\<close>) or raises
  (\<open>Some (Inl e)\<close>) ends the loop.
\<close>

fun collect_children ::
  "('a \<Rightarrow> (error + 'b) option) \<Rightarrow> 'a list \<Rightarrow> (error + 'b list) option" where
  "collect_children f [] = Some (Inr [])"
| "collect_children f (x # xs) =
     Option.bind (f x) (\<lambda>r. case r of
         Inl e \<Rightarrow> Some (Inl e)
       | Inr y \<Rightarrow> Option.bind (collect_children f xs) (\<lambda>rs. case rs of
             Inl e \<Rightarrow> Some (Inl e)
           | Inr ys \<Rightarrow> Some (Inr (y # ys))))"

lemma collect_children_mono [partial_function_mono]:
  assumes "\<And>x. mono_option (\<lambda>f. B f x)"
  shows "mono_option (\<lambda>f. collect_children (B f) xs)"
proof (induction xs)
  case Nil
  show ?case by (simp add: partial_function_mono)
next
  case (Cons x xs)
  show ?case
    unfolding collect_children.simps
    apply (rule bind_mono [OF assms])
    subgoal for y by (cases y) (auto intro!: partial_function_mono Cons)
    done
qed

text \<open>
  \<^verbatim>\<open>_construct_parses\<close>. The recursion follows the back-pointers through the chart
  (the list \<open>entries\<close>) and need not terminate on an arbitrary one, so the result is an option, as for
  \<open>fill_loop\<close>. A back-pointer \<^verbatim>\<open>None\<close> cannot be unpacked (\<open>TypeError\<close>); an id
  that \<^verbatim>\<open>_get_item\<close> does not find gives \<^verbatim>\<open>None\<close>, whose
  \<^verbatim>\<open>backpointers\<close> the recursive call then reads (\<open>AttributeError\<close>).
\<close>

partial_function (option) construct_parses ::
  "ABEntry list \<Rightarrow> string list \<Rightarrow> ABEntry \<Rightarrow> (error + Tree) option" where
  "construct_parses entries string entry =
     (if is_leaf entry then
        (case leaf_label string entry of
           Inl e \<Rightarrow> Some (Inl e)
         | Inr label \<Rightarrow> Some (Inr (Tree label [])))
      else
        Option.bind
          (collect_children
             (\<lambda>bp. case bp of
                      None \<Rightarrow> Some (Inl TypeError)
                    | Some (child_entry_id, _) \<Rightarrow>
                        (case get_item entries child_entry_id of
                           None \<Rightarrow> Some (Inl AttributeError)
                         | Some child_entry \<Rightarrow> construct_parses entries string child_entry))
             (concat (backpointers entry)))
          (\<lambda>r. case r of
                  Inl e \<Rightarrow> Some (Inl e)
                | Inr subtrees \<Rightarrow>
                    Some (Inr (Tree (inst_variable (symbol entry)) subtrees))))"

text \<open>
  \<^verbatim>\<open>_parse\<close>: the set of the trees of the start nodes, or \<^verbatim>\<open>None\<close> (here the
  inner \<open>None\<close>) when there is no start node.
\<close>

definition parse ::
  "MultipleContextFreeGrammar \<Rightarrow> string list \<Rightarrow> (error + Tree set option) option" where
  "parse g string =
     (case fill_chart g string of
        None \<Rightarrow> None
      | Some (Inl e) \<Rightarrow> Some (Inl e)
      | Some (Inr filled) \<Rightarrow>
          (if length (start_nodes g filled string) \<ge> 1 then
             Option.bind
               (collect_children (construct_parses filled string) (start_nodes g filled string))
               (\<lambda>r. case r of
                       Inl e \<Rightarrow> Some (Inl e)
                     | Inr trees \<Rightarrow> Some (Inr (Some (set trees))))
           else Some (Inr None)))"

declare fill_loop.simps [code] construct_parses.simps [code]

section \<open>Rule text: \<^verbatim>\<open>__str__\<close> and \<^verbatim>\<open>from_string\<close>\<close>

subsection \<open>The regular expressions of \<^verbatim>\<open>re.findall\<close>\<close>

text \<open>
  \<^verbatim>\<open>from_string\<close> calls \<^verbatim>\<open>re.findall\<close> with two patterns. The constructs they
  use are a literal character, \<^verbatim>\<open>\w\<close>, the empty expression, sequence, alternation
  \<^verbatim>\<open>|\<close>, the greedy \<^verbatim>\<open>?\<close> and \<^verbatim>\<open>+\<close>, and the lazy \<^verbatim>\<open>+?\<close>.

  A character of a string is the code point of the same number, so that a string holds
  code points below 256. \<^verbatim>\<open>\w\<close> matches the underscore and every code point that
  \<^verbatim>\<open>str.isalnum\<close> accepts: below 256 these are the ASCII digits and letters, the
  letters 170, 181 and 186, the superscript digits 178, 179 and 185, the fractions 188 to
  190, and the letters from 192 on without the signs 215 and 247.
\<close>

datatype regex =
    Lit char
  | WordChar
  | Eps
  | Seq regex regex
  | Alt regex regex
  | Opt regex
  | Plus regex
  | LazyPlus regex

definition word_char :: "char \<Rightarrow> bool" where
  "word_char c \<longleftrightarrow>
     (let n = (of_char c :: nat)
      in (48 \<le> n \<and> n \<le> 57) \<or> (65 \<le> n \<and> n \<le> 90) \<or> n = 95 \<or> (97 \<le> n \<and> n \<le> 122) \<or>
         n = 170 \<or> n = 178 \<or> n = 179 \<or> n = 181 \<or> n = 185 \<or> n = 186 \<or>
         (188 \<le> n \<and> n \<le> 190) \<or> (192 \<le> n \<and> n \<le> 214) \<or> (216 \<le> n \<and> n \<le> 246) \<or>
         248 \<le> n)"

text \<open>
  The backtracking matcher, as the list of the numbers of characters an expression can
  consume at the head of a string, in the order in which the matcher tries them. A greedy
  repetition tries one more pass of its body before it tries to stop, a lazy one tries to
  stop first; a pass that consumes nothing ends the repetition. The bound on the number of
  passes is never reached, since every further pass consumes a character.
\<close>

fun greedy_plus :: "nat \<Rightarrow> (string \<Rightarrow> nat list) \<Rightarrow> string \<Rightarrow> nat list" where
  "greedy_plus 0 f s = []"
| "greedy_plus (Suc k) f s =
     concat (map (\<lambda>n. (if 0 < n then map ((+) n) (greedy_plus k f (drop n s)) else []) @ [n])
                 (f s))"

fun lazy_plus :: "nat \<Rightarrow> (string \<Rightarrow> nat list) \<Rightarrow> string \<Rightarrow> nat list" where
  "lazy_plus 0 f s = []"
| "lazy_plus (Suc k) f s =
     concat (map (\<lambda>n. n # (if 0 < n then map ((+) n) (lazy_plus k f (drop n s)) else []))
                 (f s))"

primrec ends :: "regex \<Rightarrow> string \<Rightarrow> nat list" where
  "ends (Lit c) = (\<lambda>s. case s of [] \<Rightarrow> [] | x # _ \<Rightarrow> if x = c then [1] else [])"
| "ends WordChar = (\<lambda>s. case s of [] \<Rightarrow> [] | x # _ \<Rightarrow> if word_char x then [1] else [])"
| "ends Eps = (\<lambda>s. [0])"
| "ends (Seq a b) = (\<lambda>s. concat (map (\<lambda>n. map ((+) n) (ends b (drop n s))) (ends a s)))"
| "ends (Alt a b) = (\<lambda>s. ends a s @ ends b s)"
| "ends (Opt a) = (\<lambda>s. ends a s @ [0])"
| "ends (Plus a) = (\<lambda>s. greedy_plus (Suc (length s)) (ends a) s)"
| "ends (LazyPlus a) = (\<lambda>s. lazy_plus (Suc (length s)) (ends a) s)"

text \<open>
  A match of a pattern, given as the list of its top-level parts, at the head of a string:
  the first way, in the matcher's order, to match the parts one after the other. The result
  is the number of characters each part consumes. With \<open>must_advance\<close> an empty match
  is refused, as \<^verbatim>\<open>findall\<close> does right after an empty match.
\<close>

fun first_of :: "('a \<Rightarrow> 'b option) \<Rightarrow> 'a list \<Rightarrow> 'b option" where
  "first_of f [] = None"
| "first_of f (x # xs) = (case f x of Some y \<Rightarrow> Some y | None \<Rightarrow> first_of f xs)"

fun match_here :: "bool \<Rightarrow> regex list \<Rightarrow> string \<Rightarrow> nat \<Rightarrow> nat list option" where
  "match_here must_advance [] s consumed = (if must_advance \<and> consumed = 0 then None else Some [])"
| "match_here must_advance (r # rs) s consumed =
     first_of (\<lambda>n. map_option ((#) n) (match_here must_advance rs (drop n s) (consumed + n)))
       (ends r s)"

text \<open>
  The search for the leftmost match: the number of characters skipped, and the match.
  \<open>must_advance\<close> concerns the first position only.
\<close>

fun search :: "bool \<Rightarrow> regex list \<Rightarrow> string \<Rightarrow> (nat \<times> nat list) option" where
  "search must_advance parts [] =
     (case match_here must_advance parts [] 0 of Some ns \<Rightarrow> Some (0, ns) | None \<Rightarrow> None)"
| "search must_advance parts (c # s) =
     (case match_here must_advance parts (c # s) 0 of
        Some ns \<Rightarrow> Some (0, ns)
      | None \<Rightarrow> map_option (\<lambda>(k, ns). (Suc k, ns)) (search False parts s))"

text \<open>The texts of the parts of a match.\<close>

fun pieces :: "nat list \<Rightarrow> string \<Rightarrow> string list" where
  "pieces [] s = []"
| "pieces (n # ns) s = take n s # pieces ns (drop n s)"

text \<open>
  \<^verbatim>\<open>re.findall\<close>: the matches from left to right, each search starting where the last
  match ended. It terminates because a match never consumes more than the string holds
  and a search after an empty match must advance.
\<close>

lemma greedy_plus_le:
  assumes "\<And>s n. n \<in> set (f s) \<Longrightarrow> n \<le> length s"
  shows "n \<in> set (greedy_plus k f s) \<Longrightarrow> n \<le> length s"
proof (induction k arbitrary: n s)
  case 0
  then show ?case by simp
next
  case (Suc k)
  from Suc.prems obtain m where m: "m \<in> set (f s)"
    and n: "n = m \<or> (0 < m \<and> n \<in> (+) m ` set (greedy_plus k f (drop m s)))"
    by (auto split: if_splits)
  from assms [OF m] have ml: "m \<le> length s" .
  from n show ?case
  proof
    assume "n = m" with ml show ?thesis by simp
  next
    assume "0 < m \<and> n \<in> (+) m ` set (greedy_plus k f (drop m s))"
    then obtain j where j: "j \<in> set (greedy_plus k f (drop m s))" "n = m + j" by auto
    from Suc.IH [OF j(1)] have "j \<le> length s - m" by simp
    with ml j(2) show ?thesis by simp
  qed
qed

lemma lazy_plus_le:
  assumes "\<And>s n. n \<in> set (f s) \<Longrightarrow> n \<le> length s"
  shows "n \<in> set (lazy_plus k f s) \<Longrightarrow> n \<le> length s"
proof (induction k arbitrary: n s)
  case 0
  then show ?case by simp
next
  case (Suc k)
  from Suc.prems obtain m where m: "m \<in> set (f s)"
    and n: "n = m \<or> (0 < m \<and> n \<in> (+) m ` set (lazy_plus k f (drop m s)))"
    by (auto split: if_splits)
  from assms [OF m] have ml: "m \<le> length s" .
  from n show ?case
  proof
    assume "n = m" with ml show ?thesis by simp
  next
    assume "0 < m \<and> n \<in> (+) m ` set (lazy_plus k f (drop m s))"
    then obtain j where j: "j \<in> set (lazy_plus k f (drop m s))" "n = m + j" by auto
    from Suc.IH [OF j(1)] have "j \<le> length s - m" by simp
    with ml j(2) show ?thesis by simp
  qed
qed

lemma ends_le: "n \<in> set (ends r s) \<Longrightarrow> n \<le> length s"
proof (induction r arbitrary: n s)
  case (Seq a b)
  then obtain i j where ij: "i \<in> set (ends a s)" "j \<in> set (ends b (drop i s))" "n = i + j"
    by auto
  from Seq.IH(1) [OF ij(1)] Seq.IH(2) [OF ij(2)] ij(3) show ?case by simp
next
  case (Plus a)
  from Plus.prems have "n \<in> set (greedy_plus (Suc (length s)) (ends a) s)"
    by (simp del: greedy_plus.simps)
  then show ?case using Plus.IH by (rule greedy_plus_le [rotated])
next
  case (LazyPlus a)
  from LazyPlus.prems have "n \<in> set (lazy_plus (Suc (length s)) (ends a) s)"
    by (simp del: lazy_plus.simps)
  then show ?case using LazyPlus.IH by (rule lazy_plus_le [rotated])
qed (auto split: list.splits if_splits)

lemma first_of_Some: "first_of f xs = Some y \<Longrightarrow> \<exists>x \<in> set xs. f x = Some y"
  by (induction xs) (auto split: option.splits)

lemma match_here_sum:
  "match_here adv parts s c = Some ns \<Longrightarrow>
     sum_list ns \<le> length s \<and> (adv \<longrightarrow> 0 < c + sum_list ns)"
proof (induction parts arbitrary: s c ns)
  case Nil
  then show ?case by (auto split: if_splits)
next
  case (Cons r rs)
  from first_of_Some [OF Cons.prems [simplified]] obtain n ms where
    n: "n \<in> set (ends r s)" and ms: "match_here adv rs (drop n s) (c + n) = Some ms"
    and ns: "ns = n # ms" by auto
  from Cons.IH [OF ms] ends_le [OF n] ns show ?case by auto
qed

lemma search_sum:
  "search adv parts s = Some (k, ns) \<Longrightarrow>
     k + sum_list ns \<le> length s \<and> (adv \<and> k = 0 \<longrightarrow> 0 < sum_list ns)"
proof (induction s arbitrary: adv k ns)
  case Nil
  then show ?case using match_here_sum [of adv parts "[]" 0] by (auto split: option.splits)
next
  case (Cons c s)
  show ?case
  proof (cases "match_here adv parts (c # s) 0")
    case (Some ms)
    with Cons.prems have "k = 0" "ns = ms" by simp_all
    with match_here_sum [OF Some] show ?thesis by simp
  next
    case None
    with Cons.prems obtain k' where "search False parts s = Some (k', ns)" "k = Suc k'"
      by auto
    with Cons.IH [of False k' ns] show ?thesis by simp
  qed
qed

function findall_from :: "bool \<Rightarrow> regex list \<Rightarrow> string \<Rightarrow> string list list" where
  "findall_from must_advance parts s =
     (case search must_advance parts s of
        None \<Rightarrow> []
      | Some (k, ns) \<Rightarrow>
          pieces ns (drop k s) #
          findall_from (sum_list ns = 0) parts (drop (k + sum_list ns) s))"
  by pat_completeness auto
termination
proof (relation "measure (\<lambda>(adv, parts, s). 2 * length s + (if adv then 0 else 1))")
  fix must_advance :: bool and parts :: "regex list" and s :: string and x2 k ns
  assume "search must_advance parts s = Some x2" "(k, ns) = x2"
  then have "search must_advance parts s = Some (k, ns)" by simp
  from search_sum [OF this]
  have le: "k + sum_list ns \<le> length s" and adv: "must_advance \<and> k = 0 \<longrightarrow> 0 < sum_list ns"
    by simp_all
  show "((sum_list ns = 0, parts, drop (k + sum_list ns) s), must_advance, parts, s)
          \<in> measure (\<lambda>(adv, parts, s). 2 * length s + (if adv then 0 else 1))"
  proof (cases "sum_list ns = 0")
    case True
    show ?thesis
    proof (cases "k = 0")
      case True
      have "\<not> must_advance"
      proof
        assume must_advance
        with adv True have "0 < sum_list ns" by blast
        with \<open>sum_list ns = 0\<close> show False by (simp only:)
      qed
      with True \<open>sum_list ns = 0\<close> show ?thesis by simp
    next
      case False
      with le True have "length s - k < length s" by simp
      with True show ?thesis by simp
    qed
  next
    case False
    then have "0 < sum_list ns" by (rule neq0_conv [THEN iffD1])
    with le have "length s - (k + sum_list ns) < length s" by linarith
    with False show ?thesis by (simp del: sum_list_eq_0_iff)
  qed
qed simp

declare findall_from.simps [simp del]

text \<open>Each match is given by the texts of the parts of the pattern.\<close>

definition findall :: "regex list \<Rightarrow> string \<Rightarrow> string list list" where
  "findall parts s = findall_from False parts s"

subsection \<open>\<^verbatim>\<open>MCFGRule.from_string\<close>\<close>

text \<open>
  The pattern \<^verbatim>\<open>(\w+)\(((?:\w+,? ?)+?)\)\<close> of a rule element, in four parts: group 1,
  the opening parenthesis, group 2 and the closing parenthesis.
\<close>

definition elem_pattern :: "regex list" where
  "elem_pattern =
     [Plus WordChar, Lit CHR ''('',
      LazyPlus (Seq (Plus WordChar) (Seq (Opt (Lit CHR '','')) (Opt (Lit CHR '' '')))),
      Lit CHR '')'']"

text \<open>
  The pattern \<^verbatim>\<open>'('+'|'.join(strvars)+')'\<close>: one group, the alternation of the variable
  names. A name consists of letters, digits, underscores and spaces, none of which is
  special in a pattern.
\<close>

fun literal :: "string \<Rightarrow> regex" where
  "literal [] = Eps"
| "literal (c # s) = Seq (Lit c) (literal s)"

fun alternatives :: "string list \<Rightarrow> regex" where
  "alternatives [] = Eps"
| "alternatives [w] = literal w"
| "alternatives (w # ws) = Alt (literal w) (alternatives ws)"

definition strvar_pattern :: "string list \<Rightarrow> regex list" where
  "strvar_pattern strvars = [alternatives strvars]"

text \<open>
  \<^verbatim>\<open>svs.split(',')\<close> and \<^verbatim>\<open>v.strip()\<close>. The strings \<^verbatim>\<open>strip\<close> is applied to are
  pieces of group 2, which holds word characters, commas and spaces only. The white space
  \<^verbatim>\<open>strip\<close> removes is, below 256, the code points 9 to 13, 28 to 32, 133 and 160.
\<close>

fun split_comma :: "string \<Rightarrow> string list" where
  "split_comma [] = [[]]"
| "split_comma (c # s) =
     (if c = CHR '','' then [] # split_comma s
      else (case split_comma s of w # ws \<Rightarrow> (c # w) # ws | [] \<Rightarrow> [[c]]))"

definition whitespace :: "char \<Rightarrow> bool" where
  "whitespace c \<longleftrightarrow>
     (let n = (of_char c :: nat)
      in (9 \<le> n \<and> n \<le> 13) \<or> (28 \<le> n \<and> n \<le> 32) \<or> n = 133 \<or> n = 160)"

definition strip :: "string \<Rightarrow> string" where
  "strip s = rev (dropWhile whitespace (rev (dropWhile whitespace s)))"

text \<open>
  \<^verbatim>\<open>strvars.index(v)\<close>. Every \<open>v\<close> it is called with is an element of
  \<^verbatim>\<open>strvars\<close> (a text the pattern of the names matched, or a name of the right side
  itself), so the \<^verbatim>\<open>ValueError\<close> of a missing element does not arise.
\<close>

fun index_of :: "'a list \<Rightarrow> 'a \<Rightarrow> nat" where
  "index_of [] v = 0"
| "index_of (x # xs) v = (if x = v then 0 else Suc (index_of xs v))"

text \<open>The constructor \<^verbatim>\<open>cls(...)\<close>, which runs \<^verbatim>\<open>_validate\<close>.\<close>

definition construct :: "MCFGRule \<Rightarrow> error + MCFGRule" where
  "construct r = (case validate r of Inl e \<Rightarrow> Inl e | Inr _ \<Rightarrow> Inr r)"

text \<open>
  \<^verbatim>\<open>from_string\<close>. With one element the rule is an \<open>\<epsilon>\<close>-rule whose left side has one
  component, the tuple of the words. Otherwise duplicated names on the right side raise
  \<open>ValueError\<close>, no element at all makes \<^verbatim>\<open>elem_tuples[0]\<close> raise \<open>IndexError\<close>, and
  the names of the right side are numbered in their order.
\<close>

definition from_string :: "string \<Rightarrow> error + MCFGRule" where
  "from_string rule_string =
     (let elem_strs = map (\<lambda>groups. (groups ! 0, groups ! 2)) (findall elem_pattern rule_string);
          elem_tuples = map (\<lambda>(var, svs). (var, map strip (split_comma svs))) elem_strs
      in if length elem_tuples = 1 then
           construct
             \<lparr>left_side = \<lparr>variable = fst (elem_tuples ! 0),
                           string_variables = [map Word (snd (elem_tuples ! 0))]\<rparr>,
              right_side = []\<rparr>
         else
           (let strvars = concat (map snd (tl elem_tuples))
            in if \<not> distinct strvars then Inl ValueError
               else (case elem_tuples of
                       [] \<Rightarrow> Inl IndexError
                     | (var0, svs0) # rest \<Rightarrow>
                         construct
                           \<lparr>left_side =
                              \<lparr>variable = var0,
                               string_variables =
                                 map (\<lambda>vs. map (\<lambda>groups. Id (index_of strvars (groups ! 0)))
                                              (findall (strvar_pattern strvars) vs))
                                     svs0\<rparr>,
                            right_side =
                              map (\<lambda>(var, svs).
                                     \<lparr>variable = var,
                                      string_variables =
                                        map (\<lambda>sv. [Id (index_of strvars sv)]) svs\<rparr>)
                                  rest\<rparr>)))"

subsection \<open>\<^verbatim>\<open>__str__\<close>\<close>

text \<open>\<^verbatim>\<open>str(v)\<close> of a string variable: the decimal digits of an id, or the word.\<close>

fun digits :: "nat \<Rightarrow> string" where
  "digits n =
     (if n < 10 then [char_of (48 + n)] else digits (n div 10) @ [char_of (48 + n mod 10)])"

declare digits.simps [simp del]

fun strvar_str :: "strvar \<Rightarrow> string" where
  "strvar_str (Id n) = digits n"
| "strvar_str (Word w) = w"

text \<open>\<^verbatim>\<open>sep.join(xs)\<close>.\<close>

fun join :: "string \<Rightarrow> string list \<Rightarrow> string" where
  "join sep [] = []"
| "join sep [x] = x"
| "join sep (x # xs) = x @ sep @ join sep xs"

text \<open>\<^verbatim>\<open>MCFGRuleElement.__str__\<close> and \<^verbatim>\<open>MCFGRule.__str__\<close>.\<close>

definition element_str :: "MCFGRuleElement \<Rightarrow> string" where
  "element_str el =
     variable el @ ''('' @
     join '', '' (map (\<lambda>vtup. concat (map strvar_str vtup)) (string_variables el)) @ '')''"

definition rule_str :: "MCFGRule \<Rightarrow> string" where
  "rule_str r =
     (if is_epsilon r then element_str (left_side r)
      else element_str (left_side r) @ '' -> '' @ join '' '' (map element_str (right_side r)))"

section \<open>Example rules\<close>

text \<open>
  The rules of the repository's tests, as \<^verbatim>\<open>MCFGRule.from_string\<close> builds them:
  \<^verbatim>\<open>"VPwhrc(v, uw) -> Vpres(u) Sbarwhrc(v, w)"\<close> and \<^verbatim>\<open>"D(the)"\<close>.
\<close>

definition rule_1 :: MCFGRule where
  "rule_1 =
     \<lparr>left_side = \<lparr>variable = ''VPwhrc'', string_variables = [[Id 1], [Id 0, Id 2]]\<rparr>,
      right_side = [\<lparr>variable = ''Vpres'', string_variables = [[Id 0]]\<rparr>,
                    \<lparr>variable = ''Sbarwhrc'', string_variables = [[Id 1], [Id 2]]\<rparr>]\<rparr>"

definition rule_2 :: MCFGRule where
  "rule_2 = \<lparr>left_side = \<lparr>variable = ''D'', string_variables = [[Word ''the'']]\<rparr>,
             right_side = []\<rparr>"

text \<open>
  Two rules whose left side has a component without any variable of the right side, as
  \<^verbatim>\<open>from_string\<close> builds them from \<^verbatim>\<open>"A(x, uv) -> B(u) C(v)"\<close> and
  \<^verbatim>\<open>"A(uv, x) -> B(u) C(v)"\<close>: the component \<^verbatim>\<open>x\<close> becomes the empty tuple.
\<close>

definition rule_empty_first :: MCFGRule where
  "rule_empty_first =
     \<lparr>left_side = \<lparr>variable = ''A'', string_variables = [[], [Id 0, Id 1]]\<rparr>,
      right_side = [\<lparr>variable = ''B'', string_variables = [[Id 0]]\<rparr>,
                    \<lparr>variable = ''C'', string_variables = [[Id 1]]\<rparr>]\<rparr>"

definition rule_empty_last :: MCFGRule where
  "rule_empty_last =
     \<lparr>left_side = \<lparr>variable = ''A'', string_variables = [[Id 0, Id 1], []]\<rparr>,
      right_side = [\<lparr>variable = ''B'', string_variables = [[Id 0]]\<rparr>,
                    \<lparr>variable = ''C'', string_variables = [[Id 1]]\<rparr>]\<rparr>"

definition inst :: "string \<Rightarrow> SpanIndices list \<Rightarrow> MCFGRuleElementInstance" where
  "inst v spans = \<lparr>inst_variable = v, string_spans = spans\<rparr>"

text \<open>
  The rule \<^verbatim>\<open>from_string\<close> builds from
  \<^verbatim>\<open>"A(a, b, c, d, e, f, g, h, i, j, k) -> B(a, b, c, d, e, f) C(g, h, i, j, k)"\<close>, with
  eleven string variables, and the rule it builds from \<^verbatim>\<open>"D(the, a)"\<close>.
\<close>

definition rule_eleven :: MCFGRule where
  "rule_eleven =
     \<lparr>left_side = \<lparr>variable = ''A'',
                   string_variables = [[Id 0], [Id 1], [Id 2], [Id 3], [Id 4], [Id 5], [Id 6],
                                       [Id 7], [Id 8], [Id 9], [Id 10]]\<rparr>,
      right_side = [\<lparr>variable = ''B'',
                     string_variables = [[Id 0], [Id 1], [Id 2], [Id 3], [Id 4], [Id 5]]\<rparr>,
                    \<lparr>variable = ''C'',
                     string_variables = [[Id 6], [Id 7], [Id 8], [Id 9], [Id 10]]\<rparr>]\<rparr>"

definition rule_the_a :: MCFGRule where
  "rule_the_a = \<lparr>left_side = \<lparr>variable = ''D'', string_variables = [[Word ''the'', Word ''a'']]\<rparr>,
                 right_side = []\<rparr>"

text \<open>
  The rules \<^verbatim>\<open>from_string\<close> builds from \<^verbatim>\<open>"D(the cat)"\<close> and from \<^verbatim>\<open>"D(\xe9)"\<close>,
  whose literal is the letter with the code point 233.
\<close>

definition rule_the_cat :: MCFGRule where
  "rule_the_cat =
     \<lparr>left_side = \<lparr>variable = ''D'', string_variables = [[Word ''the cat'']]\<rparr>,
      right_side = []\<rparr>"

definition rule_e_acute :: MCFGRule where
  "rule_e_acute =
     \<lparr>left_side = \<lparr>variable = ''D'', string_variables = [[Word [CHR 0xE9]]]\<rparr>,
      right_side = []\<rparr>"

text \<open>Grammars over the example rules, with no start variable.\<close>

definition grammar_1 :: MultipleContextFreeGrammar where
  "grammar_1 = \<lparr>rules = [rule_1, rule_2], start_variables = []\<rparr>"

definition grammar_empty_last :: MultipleContextFreeGrammar where
  "grammar_empty_last = \<lparr>rules = [rule_empty_last], start_variables = []\<rparr>"

text \<open>
  A grammar with the rules \<^verbatim>\<open>"S(uv) -> D(u) N(v)"\<close>, \<^verbatim>\<open>"D(the)"\<close> and
  \<^verbatim>\<open>"N(human)"\<close> and the start variable \<open>S\<close>, and the chart the parser fills for
  \<^verbatim>\<open>['the', 'human']\<close>.
\<close>

definition small_grammar :: MultipleContextFreeGrammar where
  "small_grammar =
     \<lparr>rules =
        [\<lparr>left_side = \<lparr>variable = ''S'', string_variables = [[Id 0, Id 1]]\<rparr>,
          right_side = [\<lparr>variable = ''D'', string_variables = [[Id 0]]\<rparr>,
                        \<lparr>variable = ''N'', string_variables = [[Id 1]]\<rparr>]\<rparr>,
         rule_2,
         \<lparr>left_side = \<lparr>variable = ''N'', string_variables = [[Word ''human'']]\<rparr>,
          right_side = []\<rparr>],
      start_variables = [\<lparr>variable = ''S'', string_variables = [[Id 0, Id 1]]\<rparr>]\<rparr>"

definition small_chart :: "ABEntry list" where
  "small_chart =
     [\<lparr>symbol = inst ''D'' [(0, 1)], index = 0, backpointers = [[None, None]]\<rparr>,
      \<lparr>symbol = inst ''N'' [(1, 2)], index = 1, backpointers = [[None, None]]\<rparr>,
      \<lparr>symbol = inst ''S'' [(0, 2)], index = 2,
       backpointers = [[Some (0, ''D''), Some (1, ''N'')]]\<rparr>]"

section \<open>Notions used in the properties\<close>

subsection \<open>Instantiation\<close>

text \<open>
  The adjacency condition on one left-side component \<open>(v\<^sub>0, \<dots>, v\<^sub>k)\<close>: the end of
  the span of \<open>v\<^sub>i\<^sub>-\<^sub>1\<close> is the begin of the span of \<open>v\<^sub>i\<close>, for \<open>i = 1, \<dots>, k\<close>; and
  the span the component is given.
\<close>

definition adjacent :: "SpanMap \<Rightarrow> StringVariables \<Rightarrow> bool" where
  "adjacent span_map vs \<longleftrightarrow>
     (\<forall>i. 1 \<le> i \<and> i < length vs \<longrightarrow>
        snd (the (span_map (vs ! (i - 1)))) = fst (the (span_map (vs ! i))))"

definition component_of :: "SpanMap \<Rightarrow> StringVariables \<Rightarrow> SpanIndices" where
  "component_of span_map vs = (fst (the (span_map (hd vs))), snd (the (span_map (last vs))))"

text \<open>
  A rule binds its left side when no component of its right side is empty, no component
  of its left side is empty, and every variable of the left side is the first variable of
  a right-side component. Every rule of the repository's tests does.
\<close>

definition binds_left_side :: "MCFGRule \<Rightarrow> bool" where
  "binds_left_side r \<longleftrightarrow>
     (\<forall>el \<in> set (right_side r). [] \<notin> set (string_variables el)) \<and>
     (\<forall>vs \<in> set (string_variables (left_side r)).
        vs \<noteq> [] \<and> set vs \<subseteq> hd ` (\<Union>el \<in> set (right_side r). set (string_variables el)))"

subsection \<open>Chart entries and states of \<^verbatim>\<open>_fill_chart\<close>\<close>

text \<open>
  A seed entry holds the marker \<^verbatim>\<open>(None, None)\<close> and spans one token of the input
  \<open>s\<close>. A derived entry holds two back-pointers, both to smaller ids in the set
  \<open>ids\<close>. The invariant of the \<^verbatim>\<open>while\<close> loop: the ids of the chart and the agenda
  are distinct and below \<^verbatim>\<open>next_id\<close>, \<^verbatim>\<open>chart_ids\<close> holds the ids of the chart,
  and every entry is a seed or is derived from entries of the chart.
\<close>

definition seed_entry_ok :: "string list \<Rightarrow> ABEntry \<Rightarrow> bool" where
  "seed_entry_ok s e \<longleftrightarrow>
     backpointers e = [[None, None]] \<and> (\<exists>i < length s. string_spans (symbol e) = [(i, i + 1)])"

definition derived_entry_ok :: "nat set \<Rightarrow> ABEntry \<Rightarrow> bool" where
  "derived_entry_ok ids e \<longleftrightarrow>
     (\<exists>i v j w. backpointers e = [[Some (i, v), Some (j, w)]] \<and>
                i < index e \<and> j < index e \<and> i \<in> ids \<and> j \<in> ids)"

definition entry_ok :: "string list \<Rightarrow> nat set \<Rightarrow> ABEntry \<Rightarrow> bool" where
  "entry_ok s ids e \<longleftrightarrow> seed_entry_ok s e \<or> derived_entry_ok ids e"

definition invariant :: "string list \<Rightarrow> fill_state \<Rightarrow> bool" where
  "invariant s st \<longleftrightarrow>
     distinct (map index (chart st @ agenda st)) \<and>
     (\<forall>e \<in> set (chart st @ agenda st). index e < next_id st) \<and>
     chart_ids st = index ` set (chart st) \<and>
     (\<forall>e \<in> set (chart st @ agenda st). entry_ok s (index ` set (chart st)) e)"

text \<open>
  The states of \<^verbatim>\<open>_fill_chart\<close> at the head of the \<^verbatim>\<open>while\<close> loop: the state
  after seeding, and the state after each pass.
\<close>

inductive reachable :: "MultipleContextFreeGrammar \<Rightarrow> string list \<Rightarrow> fill_state \<Rightarrow> bool"
  for g :: MultipleContextFreeGrammar and s :: "string list" where
  start: "initial_state g s = Inr st \<Longrightarrow> reachable g s st"
| step: "reachable g s st \<Longrightarrow> agenda st \<noteq> [] \<Longrightarrow> fill_step g st = Inr st' \<Longrightarrow> reachable g s st'"

text \<open>The back-pointers \<^verbatim>\<open>_fill_chart\<close> gives an entry made from two entries.\<close>

definition points_to :: "ABEntry \<Rightarrow> ABEntry \<Rightarrow> ABEntry \<Rightarrow> bool" where
  "points_to current element e \<longleftrightarrow>
     backpointers e = [[Some (index element, inst_variable (symbol element)),
                        Some (index current, inst_variable (symbol current))]] \<or>
     backpointers e = [[Some (index current, inst_variable (symbol current)),
                        Some (index element, inst_variable (symbol element))]]"

text \<open>The ids the back-pointers of an entry refer to.\<close>

definition backpointer_ids :: "ABEntry \<Rightarrow> nat set" where
  "backpointer_ids e = {i. \<exists>v. Some (i, v) \<in> set (concat (backpointers e))}"

subsection \<open>Rule text\<close>

text \<open>A word is a non-empty string of word characters.\<close>

definition word :: "string \<Rightarrow> bool" where
  "word w \<longleftrightarrow> w \<noteq> [] \<and> (\<forall>c \<in> set w. word_char c)"

text \<open>
  Every character a regular expression can consume satisfies \<open>P\<close>; and a matcher that
  consumes such characters only, and no more than the string holds.
\<close>

fun leaves_in :: "(char \<Rightarrow> bool) \<Rightarrow> regex \<Rightarrow> bool" where
  "leaves_in P (Lit c) = P c"
| "leaves_in P WordChar = (\<forall>c. word_char c \<longrightarrow> P c)"
| "leaves_in P Eps = True"
| "leaves_in P (Seq a b) = (leaves_in P a \<and> leaves_in P b)"
| "leaves_in P (Alt a b) = (leaves_in P a \<and> leaves_in P b)"
| "leaves_in P (Opt a) = leaves_in P a"
| "leaves_in P (Plus a) = leaves_in P a"
| "leaves_in P (LazyPlus a) = leaves_in P a"

definition consumes :: "(char \<Rightarrow> bool) \<Rightarrow> (string \<Rightarrow> nat list) \<Rightarrow> bool" where
  "consumes P f \<longleftrightarrow> (\<forall>s n. n \<in> set (f s) \<longrightarrow> n \<le> length s \<and> (\<forall>i < n. P (s ! i)))"

text \<open>
  The body \<^verbatim>\<open>\w+,? ?\<close> of the lazy repetition in the pattern of an element, and the
  characters it can consume.
\<close>

definition token_re :: regex where
  "token_re = Seq (Plus WordChar) (Seq (Opt (Lit CHR '','')) (Opt (Lit CHR '' '')))"

definition content_char :: "char \<Rightarrow> bool" where
  "content_char c \<longleftrightarrow> word_char c \<or> c = CHR '','' \<or> c = CHR '' ''"

text \<open>
  The texts the lazy repetition can consume: one or more tokens, each a word followed by
  an optional comma and an optional space.
\<close>

definition separator :: "string \<Rightarrow> bool" where
  "separator sep \<longleftrightarrow> sep = [] \<or> sep = '','' \<or> sep = '' '' \<or> sep = '', ''"

inductive tokens :: "string \<Rightarrow> bool" where
  last_token: "word w \<Longrightarrow> separator sep \<Longrightarrow> tokens (w @ sep)"
| next_token: "word w \<Longrightarrow> separator sep \<Longrightarrow> tokens c \<Longrightarrow> tokens (w @ sep @ c)"

text \<open>
  The text \<^verbatim>\<open>__str__\<close> gives an element with the name \<open>V\<close> and the component texts
  \<open>ws\<close>; a separator without word characters followed by such a text, whose name is a
  word and whose component texts, joined, are tokens, each of them without a comma and
  left as it is by \<^verbatim>\<open>strip\<close>; the component texts of an element; and the texts of a
  rule, each with the separator before it.
\<close>

definition elem_text :: "string \<Rightarrow> string list \<Rightarrow> string" where
  "elem_text V ws = V @ ''('' @ join '', '' ws @ '')''"

definition good_item :: "string \<times> string \<times> string list \<Rightarrow> bool" where
  "good_item item \<longleftrightarrow>
     (case item of (sep, V, ws) \<Rightarrow>
        (\<forall>x \<in> set sep. \<not> word_char x) \<and> word V \<and> ws \<noteq> [] \<and> tokens (join '', '' ws) \<and>
        (\<forall>w \<in> set ws. CHR '','' \<notin> set w \<and> strip w = w))"

definition comp_strs :: "MCFGRuleElement \<Rightarrow> string list" where
  "comp_strs el = map (\<lambda>vtup. concat (map strvar_str vtup)) (string_variables el)"

definition good_element :: "MCFGRuleElement \<Rightarrow> bool" where
  "good_element el \<longleftrightarrow>
     word (variable el) \<and> comp_strs el \<noteq> [] \<and> tokens (join '', '' (comp_strs el)) \<and>
     (\<forall>w \<in> set (comp_strs el). CHR '','' \<notin> set w \<and> strip w = w)"

definition rule_items :: "MCFGRule \<Rightarrow> (string \<times> string \<times> string list) list" where
  "rule_items r =
     ([], variable (left_side r), comp_strs (left_side r)) #
     (case right_side r of
        [] \<Rightarrow> []
      | e1 # es \<Rightarrow>
          ('' -> '', variable e1, comp_strs e1) #
          map (\<lambda>el. ('' '', variable el, comp_strs el)) es)"

section \<open>Properties of \<^verbatim>\<open>instantiate_left_side\<close>\<close>

lemma adjacent_Cons2:
  "adjacent m (a # b # vs) \<longleftrightarrow> snd (the (m a)) = fst (the (m b)) \<and> adjacent m (b # vs)"
proof
  assume A: "adjacent m (a # b # vs)"
  have "snd (the (m a)) = fst (the (m b))"
    using A[unfolded adjacent_def, rule_format, of 1] by simp
  moreover have "adjacent m (b # vs)"
    unfolding adjacent_def
  proof (intro allI impI)
    fix i assume "1 \<le> i \<and> i < length (b # vs)"
    then show "snd (the (m ((b # vs) ! (i - 1)))) = fst (the (m ((b # vs) ! i)))"
      using A[unfolded adjacent_def, rule_format, of "Suc i"] by (cases i) auto
  qed
  ultimately show "snd (the (m a)) = fst (the (m b)) \<and> adjacent m (b # vs)" by simp
next
  assume B: "snd (the (m a)) = fst (the (m b)) \<and> adjacent m (b # vs)"
  show "adjacent m (a # b # vs)"
    unfolding adjacent_def
  proof (intro allI impI)
    fix i assume H: "1 \<le> i \<and> i < length (a # b # vs)"
    show "snd (the (m ((a # b # vs) ! (i - 1)))) = fst (the (m ((a # b # vs) ! i)))"
    proof (cases "i = 1")
      case True then show ?thesis using B by simp
    next
      case False
      then obtain j where j: "i = Suc j" "1 \<le> j" "j < length (b # vs)" using H by (cases i) auto
      then show ?thesis
        using B[THEN conjunct2, unfolded adjacent_def, rule_format, of j] by (cases j) auto
    qed
  qed
qed

lemma adjacent_short [simp]: "adjacent m []" "adjacent m [a]"
  by (simp_all add: adjacent_def)

lemma check_adjacent_bound:
  "set vs \<subseteq> dom m \<Longrightarrow> check_adjacent m vs = Inr (adjacent m vs)"
proof (induction m vs rule: check_adjacent.induct)
  case (1 span_map a b vs)
  then obtain p q where pq: "span_map a = Some p" "span_map b = Some q" by auto
  show ?case
  proof (cases "snd p = fst q")
    case True
    with 1 pq show ?thesis by (simp add: lookup_def adjacent_Cons2)
  next
    case False
    with pq show ?thesis by (simp add: lookup_def adjacent_Cons2)
  qed
qed simp_all

lemma component_span_bound:
  assumes "vs \<noteq> []" "set vs \<subseteq> dom m"
  shows "component_span m vs = Inr (if adjacent m vs then Some (component_of m vs) else None)"
proof -
  from assms obtain v0 rest where vs: "vs = v0 # rest" by (cases vs) auto
  from assms vs obtain p where p: "m v0 = Some p" by auto
  have "last vs \<in> set vs" using assms(1) by simp
  with assms(2) obtain q where q: "m (last vs) = Some q" by blast
  show ?thesis
    using p q vs check_adjacent_bound[OF assms(2)]
    by (simp add: component_span_def lookup_def component_of_def)
qed

lemma left_spans_bound:
  assumes "\<forall>vs \<in> set comps. vs \<noteq> [] \<and> set vs \<subseteq> dom m"
  shows "left_spans m comps acc =
           Inr (if \<forall>vs \<in> set comps. adjacent m vs then Some (acc @ map (component_of m) comps)
                else None)"
  using assms
proof (induction comps arbitrary: acc)
  case Nil
  then show ?case by simp
next
  case (Cons vs comps)
  then have c: "component_span m vs = Inr (if adjacent m vs then Some (component_of m vs) else None)"
    by (simp add: component_span_bound)
  show ?case using Cons c by simp
qed

lemma first_variables_error: "first_variables comps = Inl e \<Longrightarrow> e = IndexError"
  by (induction comps rule: first_variables.induct) (auto split: sum.splits)

text \<open>
  Claim C3, as amended. For a rule with a non-empty right side and instances that align
  with it, let \<open>span_map\<close> be the map \<^verbatim>\<open>_build_span_map\<close> returns. If no left-side
  component is empty and every variable of the left side is bound by \<open>span_map\<close>, then
  \<^verbatim>\<open>instantiate_left_side\<close> returns the left instance whose span for each component
  \<open>(v\<^sub>0, \<dots>, v\<^sub>k)\<close> is \<open>(begin (span_map v\<^sub>0), end (span_map v\<^sub>k))\<close> when every
  component is adjacent, and the no-match value \<open>None\<close> when some adjacency fails.
\<close>

theorem instantiate_left_side_concatenates:
  assumes "\<not> is_epsilon r"
    and "right_side_aligns r rs"
    and "build_span_map r rs = Inr span_map"
    and "\<forall>vs \<in> set (string_variables (left_side r)). vs \<noteq> [] \<and> set vs \<subseteq> dom span_map"
  shows "instantiate_left_side r rs =
           (if \<forall>vs \<in> set (string_variables (left_side r)). adjacent span_map vs
            then Inr (Some \<lparr>inst_variable = variable (left_side r),
                            string_spans = map (component_of span_map)
                                             (string_variables (left_side r))\<rparr>)
            else Inr None)"
  using assms(1,3) left_spans_bound[OF assms(4), of "[]"]
  by (simp add: instantiate_left_side_def concatenate_spans_def)

lemma rule_1_span_map:
  "build_span_map rule_1 [inst ''Vpres'' [(3, 4)], inst ''Sbarwhrc'' [(1, 2), (4, 7)]]
     = Inr [Id 0 \<mapsto> (3, 4), Id 1 \<mapsto> (1, 2), Id 2 \<mapsto> (4, 7)]"
  by (simp add: build_span_map_def right_side_aligns_def rule_1_def inst_def)

theorem instantiate_left_side_concatenates_witness:
  "instantiate_left_side rule_1 [inst ''Vpres'' [(3, 4)], inst ''Sbarwhrc'' [(1, 2), (4, 7)]]
     = Inr (Some (inst ''VPwhrc'' [(1, 2), (3, 7)])) \<and>
   instantiate_left_side rule_1 [inst ''Vpres'' [(3, 4)], inst ''Sbarwhrc'' [(1, 2), (5, 7)]]
     = Inr None"
proof -
  have e: "\<not> is_epsilon rule_1" by (simp add: is_epsilon_def rule_1_def)
  have a1: "right_side_aligns rule_1 [inst ''Vpres'' [(3, 4)], inst ''Sbarwhrc'' [(1, 2), (4, 7)]]"
    by (simp add: right_side_aligns_def rule_1_def inst_def)
  have a2: "right_side_aligns rule_1 [inst ''Vpres'' [(3, 4)], inst ''Sbarwhrc'' [(1, 2), (5, 7)]]"
    by (simp add: right_side_aligns_def rule_1_def inst_def)
  have m2: "build_span_map rule_1 [inst ''Vpres'' [(3, 4)], inst ''Sbarwhrc'' [(1, 2), (5, 7)]]
     = Inr [Id 0 \<mapsto> (3, 4), Id 1 \<mapsto> (1, 2), Id 2 \<mapsto> (5, 7)]"
    by (simp add: build_span_map_def right_side_aligns_def rule_1_def inst_def)
  have b1: "\<forall>vs \<in> set (string_variables (left_side rule_1)).
              vs \<noteq> [] \<and> set vs \<subseteq> dom [Id 0 \<mapsto> (3, 4), Id 1 \<mapsto> (1, 2), Id 2 \<mapsto> (4::nat, 7::nat)]"
    by (simp add: rule_1_def)
  have b2: "\<forall>vs \<in> set (string_variables (left_side rule_1)).
              vs \<noteq> [] \<and> set vs \<subseteq> dom [Id 0 \<mapsto> (3, 4), Id 1 \<mapsto> (1, 2), Id 2 \<mapsto> (5::nat, 7::nat)]"
    by (simp add: rule_1_def)
  show ?thesis
    using instantiate_left_side_concatenates [OF e a1 rule_1_span_map b1]
          instantiate_left_side_concatenates [OF e a2 m2 b2]
    by (simp add: rule_1_def inst_def adjacent_Cons2 component_of_def)
qed

text \<open>
  Without the condition on the left side the claim fails: the rule of
  \<^verbatim>\<open>"A(x, uv) -> B(u) C(v)"\<close> passes the constructor's validation, the instances
  align and both spans are adjacent, yet reading \<^verbatim>\<open>vs[0]\<close> of the empty first
  component raises \<open>IndexError\<close>.
\<close>

theorem empty_component_counterexample:
  "validate rule_empty_first = Inr () \<and> \<not> is_epsilon rule_empty_first \<and>
   right_side_aligns rule_empty_first [inst ''B'' [(0, 1)], inst ''C'' [(1, 2)]] \<and>
   instantiate_left_side rule_empty_first [inst ''B'' [(0, 1)], inst ''C'' [(1, 2)]]
     = Inl IndexError"
  by (auto simp: validate_def is_epsilon_def right_side_aligns_def rule_empty_first_def inst_def
        unique_string_variables_def instantiate_left_side_def concatenate_spans_def
        build_span_map_def component_span_def)

text \<open>
  Claim C4, as amended. When the instances fail the alignment check,
  \<^verbatim>\<open>instantiate_left_side\<close> never returns the no-match value: a rule with a
  non-empty right side raises the \<open>ValueError\<close> of \<^verbatim>\<open>_build_span_map\<close>; an
  \<open>\<epsilon>\<close>-rule returns the left instance when the instances' variable names are the first
  literals of its left side, raises \<open>IndexError\<close> when a left-side component is empty,
  and raises the \<open>ValueError\<close> otherwise.
\<close>

theorem misaligned_never_no_match:
  assumes "\<not> right_side_aligns r rs"
  shows "instantiate_left_side r rs \<noteq> Inr None \<and>
         instantiate_left_side r rs =
           (if is_epsilon r then
              (case first_variables (string_variables (left_side r)) of
                 Inl e \<Rightarrow> Inl IndexError
               | Inr strvars \<Rightarrow>
                   if map (\<lambda>el. Word (inst_variable el)) rs = strvars
                   then Inr (Some \<lparr>inst_variable = variable (left_side r),
                                   string_spans = concat (map string_spans rs)\<rparr>)
                   else Inl ValueError)
            else Inl ValueError)"
  using assms
  by (auto simp: instantiate_left_side_def concatenate_spans_def build_span_map_def Let_def
           dest: first_variables_error split: sum.splits)

theorem misaligned_never_no_match_witness:
  "\<not> right_side_aligns rule_1 [inst ''Vpres'' [(3, 4)]] \<and>
   instantiate_left_side rule_1 [inst ''Vpres'' [(3, 4)]] = Inl ValueError"
proof -
  have a: "\<not> right_side_aligns rule_1 [inst ''Vpres'' [(3, 4)]]"
    by (simp add: right_side_aligns_def rule_1_def)
  have e: "\<not> is_epsilon rule_1" by (simp add: is_epsilon_def rule_1_def)
  show ?thesis using misaligned_never_no_match [OF a] a e by simp
qed

text \<open>
  The claim as stated fails on the misaligned instances of the repository's own alignment
  test (the first variable is \<open>NP\<close>, the rule declares \<open>Vpres\<close>): the call
  raises \<open>ValueError\<close> and does not return \<open>None\<close>.
\<close>

theorem misaligned_no_match_counterexample:
  "\<not> right_side_aligns rule_1 [inst ''NP'' [(3, 4)], inst ''Sbarwhrc'' [(1, 2), (4, 7)]] \<and>
   instantiate_left_side rule_1 [inst ''NP'' [(3, 4)], inst ''Sbarwhrc'' [(1, 2), (4, 7)]]
     = Inl ValueError \<and>
   instantiate_left_side rule_1 [inst ''NP'' [(3, 4)], inst ''Sbarwhrc'' [(1, 2), (4, 7)]]
     \<noteq> Inr None"
  by (simp add: right_side_aligns_def rule_1_def inst_def instantiate_left_side_def
        is_epsilon_def concatenate_spans_def build_span_map_def)

subsection \<open>Rules returned by \<^verbatim>\<open>reduce\<close>\<close>

lemma bind_spans_error: "bind_spans ps m = Inl e \<Longrightarrow> e = IndexError"
  by (induction ps m rule: bind_spans.induct) auto

lemma check_adjacent_error: "check_adjacent m vs = Inl e \<Longrightarrow> e = KeyError"
  by (induction m vs rule: check_adjacent.induct)
     (auto simp: lookup_def split: option.splits if_splits sum.splits)

lemma component_span_error: "component_span m vs = Inl e \<Longrightarrow> e = KeyError \<or> e = IndexError"
  by (auto simp: component_span_def lookup_def dest: check_adjacent_error
           split: sum.splits bool.splits list.splits option.splits)

lemma left_spans_error: "left_spans m comps acc = Inl e \<Longrightarrow> e = KeyError \<or> e = IndexError"
  by (induction comps arbitrary: acc)
     (auto dest: component_span_error split: sum.splits option.splits)

lemma aligned_no_ValueError:
  assumes "right_side_aligns r rs" "\<not> is_epsilon r"
  shows "instantiate_left_side r rs \<noteq> Inl ValueError"
  using assms
  by (auto simp: instantiate_left_side_def concatenate_spans_def build_span_map_def
           dest: bind_spans_error left_spans_error split: sum.splits option.splits)

lemma bind_spans_dom:
  "\<forall>p \<in> set ps. fst p \<noteq> [] \<Longrightarrow>
     \<exists>m'. bind_spans ps m = Inr m' \<and> dom m' = dom m \<union> (\<lambda>p. hd (fst p)) ` set ps"
proof (induction ps arbitrary: m)
  case Nil
  then show ?case by simp
next
  case (Cons p ps)
  obtain sv sp where p: "p = (sv, sp)" by (cases p)
  with Cons.prems obtain v rest where sv: "sv = v # rest" by (cases sv) auto
  from Cons.prems have "\<forall>p \<in> set ps. fst p \<noteq> []" by simp
  from Cons.IH [OF this, of "m(v \<mapsto> sp)"] obtain m' where
    m': "bind_spans ps (m(v \<mapsto> sp)) = Inr m'"
        "dom m' = dom (m(v \<mapsto> sp)) \<union> (\<lambda>p. hd (fst p)) ` set ps" by blast
  have "dom m' = dom m \<union> (\<lambda>p. hd (fst p)) ` set (p # ps)"
    using m'(2) p sv by auto
  with m'(1) p sv show ?case by simp
qed

lemma aligned_pairs:
  assumes "length rhs = length rs"
    and "list_all (\<lambda>(elem, eleminst). length (string_variables elem) = length (string_spans eleminst)) (zip rhs rs)"
  shows "map fst (concat (map (\<lambda>(elem, eleminst). zip (string_variables elem) (string_spans eleminst)) (zip rhs rs)))
           = concat (map string_variables rhs)"
  using assms by (induction rhs rs rule: list_induct2) auto

lemma build_span_map_dom:
  assumes "right_side_aligns r rs" "\<forall>el \<in> set (right_side r). [] \<notin> set (string_variables el)"
  shows "\<exists>m. build_span_map r rs = Inr m \<and>
              dom m = hd ` (\<Union>el \<in> set (right_side r). set (string_variables el))"
proof -
  let ?ps = "concat (map (\<lambda>(elem, eleminst). zip (string_variables elem) (string_spans eleminst))
                       (zip (right_side r) rs))"
  from assms(1) have len: "length (right_side r) = length rs"
    and sv: "list_all (\<lambda>(elem, eleminst). length (string_variables elem) = length (string_spans eleminst)) (zip (right_side r) rs)"
    by (auto simp: right_side_aligns_def Let_def split: if_splits)
  have fst: "map fst ?ps = concat (map string_variables (right_side r))"
    by (rule aligned_pairs [OF len sv])
  have set_fst: "fst ` set ?ps = (\<Union>el \<in> set (right_side r). set (string_variables el))"
  proof -
    have "fst ` set ?ps = set (map fst ?ps)" by simp
    also have "\<dots> = set (concat (map string_variables (right_side r)))" by (simp only: fst)
    finally show ?thesis by simp
  qed
  have ne: "\<forall>p \<in> set ?ps. fst p \<noteq> []"
  proof
    fix p assume "p \<in> set ?ps"
    then have "fst p \<in> fst ` set ?ps" by (rule imageI)
    then show "fst p \<noteq> []" using assms(2) unfolding set_fst by auto
  qed
  from bind_spans_dom [OF ne, of Map.empty]
  obtain m where m: "bind_spans ?ps Map.empty = Inr m" "dom m = (\<lambda>p. hd (fst p)) ` set ?ps" by auto
  have "(\<lambda>p. hd (fst p)) ` set ?ps = hd ` fst ` set ?ps" by (simp add: image_image)
  with m set_fst assms(1) show ?thesis by (simp add: build_span_map_def)
qed

lemma aligned_bound_returns:
  assumes "right_side_aligns r rs" "\<not> is_epsilon r" "binds_left_side r"
  shows "\<exists>res. instantiate_left_side r rs = Inr res"
proof -
  from assms(3) have rhs: "\<forall>el \<in> set (right_side r). [] \<notin> set (string_variables el)"
    by (simp add: binds_left_side_def)
  from build_span_map_dom [OF assms(1) rhs] obtain m where
    m: "build_span_map r rs = Inr m" "dom m = hd ` (\<Union>el \<in> set (right_side r). set (string_variables el))"
    by auto
  from assms(3) m(2) have "\<forall>vs \<in> set (string_variables (left_side r)). vs \<noteq> [] \<and> set vs \<subseteq> dom m"
    by (simp add: binds_left_side_def)
  from left_spans_bound [OF this, of "[]"] m(1) assms(2)
  show ?thesis by (simp add: instantiate_left_side_def concatenate_spans_def)
qed

lemma reduce_aligned: "r \<in> set (reduce g rs) \<Longrightarrow> right_side_aligns r rs \<and> r \<in> set (rules g)"
  by (simp add: reduce_def)

lemma aligned_pair_not_epsilon: "right_side_aligns r [a, b] \<Longrightarrow> \<not> is_epsilon r"
  by (auto simp: right_side_aligns_def is_epsilon_def split: if_splits)

lemma instantiate_all_no_ValueError:
  "\<forall>r \<in> set rs0. right_side_aligns r [a, b] \<Longrightarrow> instantiate_all rs0 [a, b] \<noteq> Inl ValueError"
proof (induction rs0)
  case Nil
  then show ?case by simp
next
  case (Cons r rs0)
  then have "right_side_aligns r [a, b]" by simp
  then have "instantiate_left_side r [a, b] \<noteq> Inl ValueError"
    using aligned_no_ValueError aligned_pair_not_epsilon by blast
  with Cons show ?case by (auto split: sum.splits)
qed

lemma combine_no_ValueError: "combine g current element \<noteq> Inl ValueError"
proof -
  have 1: "instantiate_all (reduce g [symbol current, symbol element]) [symbol current, symbol element] \<noteq> Inl ValueError"
    by (rule instantiate_all_no_ValueError) (simp add: reduce_def)
  have 2: "instantiate_all (reduce g [symbol element, symbol current]) [symbol element, symbol current] \<noteq> Inl ValueError"
    by (rule instantiate_all_no_ValueError) (simp add: reduce_def)
  show ?thesis using 1 2 by (auto simp: combine_def split: sum.splits)
qed

text \<open>
  Claim C9, as amended. For instances \<open>a\<close>, \<open>b\<close> and a rule returned by
  \<^verbatim>\<open>reduce(a, b)\<close>, \<^verbatim>\<open>instantiate_left_side(a, b)\<close> never raises the
  misalignment error \<open>ValueError\<close>, and neither does \<^verbatim>\<open>_combine\<close>; when the rule
  binds its left side, the call returns a left instance or the no-match value.
\<close>

theorem reduce_never_misaligned:
  assumes "r \<in> set (reduce g [a, b])"
  shows "instantiate_left_side r [a, b] \<noteq> Inl ValueError \<and>
         combine g current element \<noteq> Inl ValueError \<and>
         (binds_left_side r \<longrightarrow> (\<exists>res. instantiate_left_side r [a, b] = Inr res))"
proof -
  from assms have al: "right_side_aligns r [a, b]" by (simp add: reduce_def)
  then have ne: "\<not> is_epsilon r" by (rule aligned_pair_not_epsilon)
  show ?thesis
    using aligned_no_ValueError [OF al ne] combine_no_ValueError aligned_bound_returns [OF al ne]
    by blast
qed

theorem reduce_never_misaligned_witness:
  "rule_1 \<in> set (reduce grammar_1 [inst ''Vpres'' [(3, 4)], inst ''Sbarwhrc'' [(1, 2), (4, 7)]]) \<and>
   binds_left_side rule_1 \<and>
   instantiate_left_side rule_1 [inst ''Vpres'' [(3, 4)], inst ''Sbarwhrc'' [(1, 2), (4, 7)]]
     \<noteq> Inl ValueError \<and>
   (\<exists>res. instantiate_left_side rule_1 [inst ''Vpres'' [(3, 4)], inst ''Sbarwhrc'' [(1, 2), (4, 7)]]
            = Inr res)"
proof -
  have r: "rule_1 \<in> set (reduce grammar_1 [inst ''Vpres'' [(3, 4)], inst ''Sbarwhrc'' [(1, 2), (4, 7)]])"
    by (simp add: reduce_def grammar_1_def right_side_aligns_def rule_1_def inst_def)
  have b: "binds_left_side rule_1"
    by (simp add: binds_left_side_def rule_1_def)
  show ?thesis using reduce_never_misaligned [OF r] r b by simp
qed

text \<open>
  Without the condition on the rule the last part of the claim fails: \<^verbatim>\<open>reduce\<close>
  returns the rule of \<^verbatim>\<open>"A(uv, x) -> B(u) C(v)"\<close>, which passes the constructor's
  validation, and its instantiation raises \<open>IndexError\<close> on the empty second component:
  it returns neither an instance nor \<open>None\<close>.
\<close>

theorem reduce_returns_counterexample:
  "validate rule_empty_last = Inr () \<and>
   rule_empty_last \<in> set (reduce grammar_empty_last [inst ''B'' [(0, 1)], inst ''C'' [(1, 2)]]) \<and>
   instantiate_left_side rule_empty_last [inst ''B'' [(0, 1)], inst ''C'' [(1, 2)]]
     = Inl IndexError"
  by (auto simp: validate_def is_epsilon_def right_side_aligns_def rule_empty_last_def inst_def
        unique_string_variables_def instantiate_left_side_def concatenate_spans_def
        build_span_map_def component_span_def reduce_def grammar_empty_last_def lookup_def)

section \<open>Properties of the parser\<close>

subsection \<open>One pass of the loop\<close>

lemma add_parses_spec:
  "\<exists>new. add_parses r current element cs (ag, nid) = (ag @ new, nid + length new) \<and>
         map index new = [nid..<nid + length new] \<and>
         (\<forall>e \<in> set new. points_to current element e)"
proof (induction cs arbitrary: ag nid)
  case Nil
  show ?case by simp
next
  case (Cons c cs)
  let ?e = "if r \<noteq> 0 then
           \<lparr>symbol = c, index = nid,
            backpointers = [[Some (index element, inst_variable (symbol element)),
                             Some (index current, inst_variable (symbol current))]]\<rparr>
         else
           \<lparr>symbol = c, index = nid,
            backpointers = [[Some (index current, inst_variable (symbol current)),
                             Some (index element, inst_variable (symbol element))]]\<rparr>"
  from Cons [of "ag @ [?e]" "nid + 1"] obtain new where
    new: "add_parses r current element cs (ag @ [?e], nid + 1) = ((ag @ [?e]) @ new, nid + 1 + length new)"
         "map index new = [nid + 1..<nid + 1 + length new]"
         "\<forall>e \<in> set new. points_to current element e" by blast
  have ie: "index ?e = nid" by simp
  have pe: "points_to current element ?e" by (simp add: points_to_def)
  have "add_parses r current element (c # cs) (ag, nid) = (ag @ (?e # new), nid + length (?e # new))"
    using new(1) by (simp add: Let_def)
  moreover have "map index (?e # new) = [nid..<nid + length (?e # new)]"
  proof -
    have "[nid..<nid + length (?e # new)] = nid # [nid + 1..<nid + 1 + length new]"
      by (subst upt_rec) simp
    moreover have "map index (?e # new) = nid # map index new" using ie by simp
    ultimately show ?thesis using new(2) by simp
  qed
  moreover have "\<forall>e \<in> set (?e # new). points_to current element e"
    using new(3) pe by simp
  ultimately show ?case by blast
qed

lemma scan_chart_spec:
  "scan_chart g current elems (ag, nid) = Inr (ag', nid') \<Longrightarrow>
     \<exists>new. ag' = ag @ new \<and> nid' = nid + length new \<and>
           map index new = [nid..<nid + length new] \<and>
           (\<forall>e \<in> set new. \<exists>element \<in> set elems. points_to current element e)"
proof (induction elems arbitrary: ag nid)
  case Nil
  then show ?case by simp
next
  case (Cons element elems)
  from Cons.prems obtain r combination where
    c: "combine g current element = Inr (r, combination)"
    by (auto split: sum.splits)
  obtain added where
    added: "add_parses r current element (case combination of None \<Rightarrow> [] | Some cs \<Rightarrow> cs) (ag, nid)
              = (ag @ added, nid + length added)"
           "map index added = [nid..<nid + length added]"
           "\<forall>e \<in> set added. points_to current element e"
    using add_parses_spec by blast
  have rest: "scan_chart g current elems (ag @ added, nid + length added) = Inr (ag', nid')"
  proof (cases combination)
    case None
    with added(1) have "added = []" by simp
    with Cons.prems c None show ?thesis by simp
  next
    case (Some cs)
    show ?thesis
    proof (cases cs)
      case Nil
      with added(1) Some have "added = []" by simp
      with Cons.prems c Some Nil show ?thesis by simp
    next
      case (Cons c' cs')
      with Cons.prems c Some added(1) show ?thesis by (simp del: add_parses.simps)
    qed
  qed
  from Cons.IH [OF rest] obtain new where
    new: "ag' = (ag @ added) @ new" "nid' = nid + length added + length new"
         "map index new = [nid + length added..<nid + length added + length new]"
         "\<forall>e \<in> set new. \<exists>element \<in> set elems. points_to current element e" by blast
  have "[nid..<nid + length added + length new]
          = [nid..<nid + length added] @ [nid + length added..<nid + length added + length new]"
    by (rule upt_add_eq_append) simp
  then have "map index (added @ new) = [nid..<nid + length (added @ new)]"
    using added(2) new(3) by (simp add: add.assoc)
  moreover have "\<forall>e \<in> set (added @ new). \<exists>el \<in> set (element # elems). points_to current el e"
    using added(3) new(4) by auto
  ultimately show ?case using new(1,2) by (intro exI [of _ "added @ new"]) simp
qed

lemma entry_ok_mono: "entry_ok s ids e \<Longrightarrow> ids \<subseteq> ids' \<Longrightarrow> entry_ok s ids' e"
  by (auto simp: entry_ok_def derived_entry_ok_def)

lemma fill_step_spec:
  assumes inv: "invariant s st" and ne: "agenda st \<noteq> []" and step: "fill_step g st = Inr st'"
  shows "invariant s st' \<and> chart st' = chart st @ [hd (agenda st)] \<and>
         (\<exists>new. agenda st' = tl (agenda st) @ new \<and> next_id st' = next_id st + length new \<and>
                map index new = [next_id st..<next_id st + length new])"
proof -
  obtain current rest where ag: "agenda st = current # rest" using ne by (cases "agenda st") auto
  from step obtain ag' nid' where
    sc: "scan_chart g current (chart st) (rest, next_id st) = Inr (ag', nid')"
    by (auto simp: fill_step_def ag Let_def split: sum.splits)
  from scan_chart_spec [OF sc] obtain new where
    new: "ag' = rest @ new" "nid' = next_id st + length new"
         "map index new = [next_id st..<next_id st + length new]"
         "\<forall>e \<in> set new. \<exists>element \<in> set (chart st). points_to current element e" by blast
  from inv have d: "distinct (map index (chart st @ current # rest))"
    and lt: "\<forall>e \<in> set (chart st @ current # rest). index e < next_id st"
    and ids: "chart_ids st = index ` set (chart st)"
    and ok: "\<forall>e \<in> set (chart st @ current # rest). entry_ok s (index ` set (chart st)) e"
    by (simp_all add: invariant_def ag)
  from d ids have fresh: "index current \<notin> chart_ids st" by auto
  have st': "st' = \<lparr>agenda = rest @ new, chart = chart st @ [current],
                    chart_ids = insert (index current) (chart_ids st),
                    next_id = next_id st + length new\<rparr>"
    using step sc fresh new(1,2) by (simp add: fill_step_def ag Let_def)
  have new_ge: "\<forall>e \<in> set new. next_id st \<le> index e"
  proof
    fix e assume "e \<in> set new"
    then have "index e \<in> set (map index new)" by simp
    then show "next_id st \<le> index e" unfolding new(3) by simp
  qed
  have new_lt: "\<forall>e \<in> set new. index e < next_id st + length new"
  proof
    fix e assume "e \<in> set new"
    then have "index e \<in> set (map index new)" by simp
    then show "index e < next_id st + length new" unfolding new(3) by simp
  qed
  have d': "distinct (map index ((chart st @ [current]) @ rest @ new))"
  proof -
    have "distinct (map index new)" unfolding new(3) by simp
    moreover have "set (map index (chart st @ current # rest)) \<inter> set (map index new) = {}"
    proof (rule ccontr)
      assume "set (map index (chart st @ current # rest)) \<inter> set (map index new) \<noteq> {}"
      then obtain x where x: "x \<in> set (map index (chart st @ current # rest))"
        "x \<in> set (map index new)" by blast
      from x(1) have "x \<in> index ` set (chart st @ current # rest)" by (simp only: set_map)
      then obtain e1 where "e1 \<in> set (chart st @ current # rest)" "x = index e1" by blast
      with lt have "x < next_id st" by blast
      moreover from x(2) obtain e2 where "e2 \<in> set new" "x = index e2" by auto
      with new_ge have "next_id st \<le> x" by blast
      ultimately show False by simp
    qed
    ultimately show ?thesis using d by auto
  qed
  have lt': "\<forall>e \<in> set ((chart st @ [current]) @ rest @ new). index e < next_id st + length new"
  proof
    fix e assume "e \<in> set ((chart st @ [current]) @ rest @ new)"
    then have "e \<in> set (chart st @ current # rest) \<or> e \<in> set new" by auto
    then show "index e < next_id st + length new"
    proof
      assume "e \<in> set (chart st @ current # rest)"
      with lt have "index e < next_id st" by blast
      then show ?thesis by simp
    next
      assume "e \<in> set new"
      with new_lt show ?thesis by blast
    qed
  qed
  have ok': "\<forall>e \<in> set ((chart st @ [current]) @ rest @ new).
               entry_ok s (index ` set (chart st @ [current])) e"
  proof
    fix e assume e: "e \<in> set ((chart st @ [current]) @ rest @ new)"
    show "entry_ok s (index ` set (chart st @ [current])) e"
    proof (cases "e \<in> set new")
      case False
      with e have "e \<in> set (chart st @ current # rest)" by auto
      with ok have "entry_ok s (index ` set (chart st)) e" by blast
      then show ?thesis by (rule entry_ok_mono) auto
    next
      case True
      with new(4) obtain element where el: "element \<in> set (chart st)" "points_to current element e"
        by blast
      from el(1) lt have "index element < next_id st" by simp
      moreover from lt have "index current < next_id st" by simp
      moreover from True new_ge have "next_id st \<le> index e" by blast
      ultimately have "index element < index e" "index current < index e" by simp_all
      with el show ?thesis
        by (auto simp: entry_ok_def derived_entry_ok_def points_to_def)
    qed
  qed
  have "invariant s st'"
    unfolding invariant_def st' using d' lt' ok' ids by simp
  moreover have "chart st' = chart st @ [hd (agenda st)]" by (simp add: st' ag)
  moreover have "agenda st' = tl (agenda st) @ new \<and> next_id st' = next_id st + length new \<and>
                map index new = [next_id st..<next_id st + length new]"
    using new(3) by (simp add: st' ag)
  ultimately show ?thesis by blast
qed

subsection \<open>Seeding\<close>

lemma lexical_rules_epsilon:
  "lexical_rules rs tok = Inr found \<Longrightarrow> \<forall>r \<in> set found. is_epsilon r"
  by (induction rs arbitrary: found) (auto split: if_splits sum.splits)

lemma lexical_instance:
  assumes "is_epsilon r"
  shows "instantiate_left_side r [ph] \<noteq> Inr None \<and>
         (instantiate_left_side r [ph] = Inr (Some i) \<longrightarrow> string_spans i = string_spans ph)"
proof -
  have "\<not> right_side_aligns r [ph]"
    using assms by (simp add: right_side_aligns_def is_epsilon_def)
  then have "concatenate_spans r [ph] = Inl ValueError"
    by (simp add: concatenate_spans_def build_span_map_def)
  then show ?thesis
    using assms by (auto simp: instantiate_left_side_def Let_def split: sum.splits if_splits)
qed

lemma lexical_instance_not_None:
  "is_epsilon r \<Longrightarrow> instantiate_left_side r [ph] \<noteq> Inr None"
  using lexical_instance by blast

lemma seed_rules_spec:
  "seed_rules rs tok idx ag = Inr ag' \<Longrightarrow> \<forall>r \<in> set rs. is_epsilon r \<Longrightarrow>
     \<exists>new. ag' = ag @ new \<and>
           (\<forall>e \<in> set new. backpointers e = [[None, None]] \<and>
                           string_spans (symbol e) = [(idx, idx + 1)])"
proof (induction rs arbitrary: ag)
  case Nil
  then show ?case by simp
next
  case (Cons r rs)
  let ?ph = "\<lparr>inst_variable = tok, string_spans = [(idx, idx + 1)]\<rparr>"
  from Cons.prems obtain i where i: "instantiate_left_side r [?ph] = Inr (Some i)"
    by (auto split: sum.splits option.splits)
  from Cons.prems(2) have "is_epsilon r" by simp
  from lexical_instance [OF this, of ?ph i] i have sp: "string_spans i = [(idx, idx + 1)]" by simp
  let ?e = "\<lparr>symbol = i, index = 0, backpointers = [[None, None]]\<rparr>"
  from Cons.prems i have "seed_rules rs tok idx (ag @ [?e]) = Inr ag'" by simp
  from Cons.IH [OF this] Cons.prems(2) obtain new where
    new: "ag' = (ag @ [?e]) @ new"
         "\<forall>e \<in> set new. backpointers e = [[None, None]] \<and> string_spans (symbol e) = [(idx, idx + 1)]"
    by auto
  show ?case
    using new sp by (intro exI [of _ "?e # new"]) simp
qed

lemma seed_words_spec:
  "seed_words g iws ag = Inr ag' \<Longrightarrow> \<forall>(i, w) \<in> set iws. i < n \<Longrightarrow>
     \<exists>new. ag' = ag @ new \<and>
           (\<forall>e \<in> set new. backpointers e = [[None, None]] \<and>
                           (\<exists>i < n. string_spans (symbol e) = [(i, i + 1)]))"
proof (induction iws arbitrary: ag)
  case Nil
  then show ?case by simp
next
  case (Cons iw iws)
  obtain idx tok where iw: "iw = (idx, tok)" by (cases iw)
  from Cons.prems(1) iw obtain possible_rules ag1 where
    p: "parts_of_speech g tok = Inr possible_rules"
    and s1: "seed_rules possible_rules tok idx ag = Inr ag1"
    and s2: "seed_words g iws ag1 = Inr ag'"
    by (auto split: sum.splits)
  from p have "\<forall>r \<in> set possible_rules. is_epsilon r"
    by (simp add: parts_of_speech_def lexical_rules_epsilon)
  from seed_rules_spec [OF s1 this] obtain new1 where
    new1: "ag1 = ag @ new1"
          "\<forall>e \<in> set new1. backpointers e = [[None, None]] \<and> string_spans (symbol e) = [(idx, idx + 1)]"
    by blast
  from Cons.prems(2) iw have idx: "idx < n" and rest: "\<forall>(i, w) \<in> set iws. i < n" by auto
  from Cons.IH [OF s2 rest] obtain new2 where
    new2: "ag' = ag1 @ new2"
          "\<forall>e \<in> set new2. backpointers e = [[None, None]] \<and>
                           (\<exists>i < n. string_spans (symbol e) = [(i, i + 1)])"
    by blast
  have "\<forall>e \<in> set (new1 @ new2). backpointers e = [[None, None]] \<and>
                           (\<exists>i < n. string_spans (symbol e) = [(i, i + 1)])"
    using new1(2) new2(2) idx by auto
  then show ?case using new1(1) new2(1) by (intro exI [of _ "new1 @ new2"]) simp
qed

lemma renumber_index: "map index (renumber ag) = [0..<length ag]"
proof -
  have "map index (renumber ag)
          = map (\<lambda>p. index ((\<lambda>(n, e). e\<lparr>index := n\<rparr>) p)) (enumerate 0 ag)"
    by (simp add: renumber_def comp_def)
  also have "\<dots> = map fst (enumerate 0 ag)"
    by (rule map_cong) auto
  finally have "map index (renumber ag) = map fst (enumerate 0 ag)" .
  then show ?thesis by (simp add: map_fst_enumerate) 
qed

lemma renumber_entry:
  "e \<in> set (renumber ag) \<Longrightarrow>
     \<exists>e0 \<in> set ag. symbol e = symbol e0 \<and> backpointers e = backpointers e0"
  by (auto simp: renumber_def in_set_enumerate_eq)

lemma length_renumber [simp]: "length (renumber ag) = length ag"
  by (simp add: renumber_def)

lemma initial_state_spec:
  assumes "initial_state g s = Inr st"
  shows "invariant s st \<and> chart st = [] \<and> agenda st \<noteq> [] \<and>
         map index (agenda st) = [0..<length (agenda st)] \<and> next_id st = length (agenda st)"
proof -
  from assms obtain seeds where
    sw: "seed_words g (enumerate 0 s) [] = Inr seeds" and ne: "seeds \<noteq> []"
    and st: "st = \<lparr>agenda = renumber seeds, chart = [], chart_ids = {},
                   next_id = (length seeds - 1) + 1\<rparr>"
    by (auto simp: initial_state_def split: sum.splits if_splits)
  have "\<forall>(i, w) \<in> set (enumerate 0 s). i < length s"
    by (auto simp: in_set_enumerate_eq)
  from seed_words_spec [OF sw this] have
    seeds: "\<forall>e \<in> set seeds. backpointers e = [[None, None]] \<and>
                           (\<exists>i < length s. string_spans (symbol e) = [(i, i + 1)])"
    by simp
  have n: "(length seeds - 1) + 1 = length seeds" using ne by (cases seeds) auto
  have ok: "\<forall>e \<in> set (renumber seeds). entry_ok s {} e"
  proof
    fix e assume "e \<in> set (renumber seeds)"
    from renumber_entry [OF this] seeds show "entry_ok s {} e"
      by (auto simp: entry_ok_def seed_entry_ok_def)
  qed
  have lt: "\<forall>e \<in> set (renumber seeds). index e < length seeds"
  proof
    fix e assume "e \<in> set (renumber seeds)"
    then have "index e \<in> set (map index (renumber seeds))" by simp
    then show "index e < length seeds" unfolding renumber_index by simp
  qed
  have "invariant s st"
    unfolding invariant_def st using ok lt n by (simp add: renumber_index)
  moreover have "agenda st \<noteq> []"
  proof -
    have "length (agenda st) = length seeds" by (simp add: st)
    with ne show ?thesis by auto
  qed
  ultimately show ?thesis using ne by (cases seeds) (simp_all add: st renumber_index)
qed

subsection \<open>The invariant holds in every state and in the returned chart\<close>

lemma reachable_invariant: "reachable g s st \<Longrightarrow> invariant s st"
proof (induction rule: reachable.induct)
  case (start st)
  then show ?case using initial_state_spec by blast
next
  case (step st st')
  then show ?case using fill_step_spec by blast
qed

lemma fill_loop_final:
  assumes "fill_loop g st = Some r"
  shows "reachable g s st \<longrightarrow>
           (\<forall>filled. r = Inr filled \<longrightarrow>
              (\<exists>st'. reachable g s st' \<and> agenda st' = [] \<and> chart st' = filled))"
proof (rule fill_loop.raw_induct
    [where P = "\<lambda>g st r. reachable g s st \<longrightarrow>
           (\<forall>filled. r = Inr filled \<longrightarrow>
              (\<exists>st'. reachable g s st' \<and> agenda st' = [] \<and> chart st' = filled))", OF _ assms])
  fix f :: "MultipleContextFreeGrammar \<Rightarrow> fill_state \<Rightarrow> (error + ABEntry list) option"
    and g0 st0 r0
  assume IH: "\<And>g1 st1 r1. f g1 st1 = Some r1 \<Longrightarrow> reachable g1 s st1 \<longrightarrow>
           (\<forall>filled. r1 = Inr filled \<longrightarrow>
              (\<exists>st'. reachable g1 s st' \<and> agenda st' = [] \<and> chart st' = filled))"
    and eq: "(if agenda st0 = [] then Some (Inr (chart st0))
              else case fill_step g0 st0 of Inl e \<Rightarrow> Some (Inl e) | Inr st' \<Rightarrow> f g0 st') = Some r0"
  show "reachable g0 s st0 \<longrightarrow>
           (\<forall>filled. r0 = Inr filled \<longrightarrow>
              (\<exists>st'. reachable g0 s st' \<and> agenda st' = [] \<and> chart st' = filled))"
  proof (intro impI allI)
    fix filled assume re: "reachable g0 s st0" and r0: "r0 = Inr filled"
    show "\<exists>st'. reachable g0 s st' \<and> agenda st' = [] \<and> chart st' = filled"
    proof (cases "agenda st0 = []")
      case True
      with eq r0 re show ?thesis by auto
    next
      case False
      with eq r0 obtain st1 where st1: "fill_step g0 st0 = Inr st1" "f g0 st1 = Some r0"
        by (auto split: sum.splits)
      have "reachable g0 s st1" using re False st1(1) by (rule reachable.step)
      with IH [OF st1(2)] r0 show ?thesis by blast
    qed
  qed
qed

lemma fill_chart_final:
  assumes "fill_chart g s = Some (Inr filled)"
  shows "\<exists>st. reachable g s st \<and> agenda st = [] \<and> chart st = filled"
proof -
  from assms obtain st0 where st0: "initial_state g s = Inr st0" "fill_loop g st0 = Some (Inr filled)"
    by (auto simp: fill_chart_def split: sum.splits)
  from fill_loop_final [OF st0(2), of s] reachable.start [OF st0(1)] show ?thesis by blast
qed

lemma get_item_found:
  "i \<in> index ` set xs \<Longrightarrow> \<exists>e'. get_item xs i = Some e' \<and> index e' = i \<and> e' \<in> set xs"
  unfolding get_item_def by (induction xs) auto

lemma entry_ok_backpointer_ids:
  "entry_ok s ids e \<Longrightarrow> i \<in> backpointer_ids e \<Longrightarrow> i \<in> ids \<and> i < index e"
  by (auto simp: entry_ok_def seed_entry_ok_def derived_entry_ok_def backpointer_ids_def)

lemma fill_chart_entries_ok:
  assumes "fill_chart g s = Some (Inr filled)"
  shows "distinct (map index filled) \<and> (\<forall>e \<in> set filled. entry_ok s (index ` set filled) e)"
proof -
  from fill_chart_final [OF assms] obtain st where
    st: "reachable g s st" "agenda st = []" "chart st = filled" by blast
  from reachable_invariant [OF st(1)] st(2,3) show ?thesis
    by (simp add: invariant_def)
qed

lemma collect_children_ok:
  "\<forall>x \<in> set xs. \<exists>t. f x = Some (Inr t) \<Longrightarrow>
     \<exists>ts. collect_children f xs = Some (Inr ts) \<and> length ts = length xs"
proof (induction xs)
  case Nil
  then show ?case by simp
next
  case (Cons x xs)
  then obtain t where t: "f x = Some (Inr t)" by auto
  from Cons obtain ts where ts: "collect_children f xs = Some (Inr ts)" "length ts = length xs"
    by auto
  show ?case using t ts by simp
qed

lemma construct_parses_ok:
  assumes ok: "\<forall>e \<in> set filled. entry_ok s (index ` set filled) e"
  shows "e \<in> set filled \<Longrightarrow> \<exists>t. construct_parses filled s e = Some (Inr t)"
proof (induction "index e" arbitrary: e rule: less_induct)
  case less
  from ok less.prems have "seed_entry_ok s e \<or> derived_entry_ok (index ` set filled) e"
    by (simp add: entry_ok_def)
  then show ?case
  proof
    assume "seed_entry_ok s e"
    then obtain i where i: "backpointers e = [[None, None]]" "i < length s"
      "string_spans (symbol e) = [(i, i + 1)]"
      by (auto simp: seed_entry_ok_def)
    have leaf: "is_leaf e" using i(1) by (simp add: is_leaf_def)
    have "leaf_label s e = Inr (inst_variable (symbol e) @ ''('' @ s ! i @ '')'')"
      using i(2,3) by (simp add: leaf_label_def)
    with leaf show ?thesis by (subst construct_parses.simps) simp
  next
    assume "derived_entry_ok (index ` set filled) e"
    then obtain i v j w where d: "backpointers e = [[Some (i, v), Some (j, w)]]"
      "i < index e" "j < index e" "i \<in> index ` set filled" "j \<in> index ` set filled"
      by (auto simp: derived_entry_ok_def)
    from get_item_found [OF d(4)] obtain ei where
      ei: "get_item filled i = Some ei" "index ei = i" "ei \<in> set filled" by blast
    from get_item_found [OF d(5)] obtain ej where
      ej: "get_item filled j = Some ej" "index ej = j" "ej \<in> set filled" by blast
    from less.hyps [of ei] ei d(2) obtain ti where ti: "construct_parses filled s ei = Some (Inr ti)"
      by auto
    from less.hyps [of ej] ej d(3) obtain tj where tj: "construct_parses filled s ej = Some (Inr tj)"
      by auto
    have nl: "\<not> is_leaf e" using d(1) by (simp add: is_leaf_def)
    show ?thesis
      using nl d(1) ei(1) ej(1) ti tj by (subst construct_parses.simps) simp
  qed
qed

subsection \<open>The example chart\<close>

lemma small_chart_filled:
  "fill_chart small_grammar [''the'', ''human''] = Some (Inr small_chart)"
  by code_simp

lemma small_initial:
  "initial_state small_grammar [''the'', ''human'']
     = Inr \<lparr>agenda = [\<lparr>symbol = inst ''D'' [(0, 1)], index = 0, backpointers = [[None, None]]\<rparr>,
      \<lparr>symbol = inst ''N'' [(1, 2)], index = 1, backpointers = [[None, None]]\<rparr>], chart = [], chart_ids = {}, next_id = 2\<rparr>"
  by code_simp

lemma the_chart_filled:
  "fill_chart small_grammar [''the'']
     = Some (Inr [\<lparr>symbol = inst ''D'' [(0, 1)], index = 0, backpointers = [[None, None]]\<rparr>])"
  by code_simp

lemma small_entry_2_filled:
  "\<lparr>symbol = inst ''S'' [(0, 2)], index = 2,
     backpointers = [[Some (0, ''D''), Some (1, ''N'')]]\<rparr> \<in> set small_chart"
  by (simp add: small_chart_def)

subsection \<open>The claims about the parser\<close>

text \<open>
  Claim C6. In every state of \<^verbatim>\<open>_fill_chart\<close> the ids of the chart and the agenda are
  pairwise distinct and below \<^verbatim>\<open>next_id\<close>; the seed entries get the ids
  \<open>0, \<dots>, k - 1\<close> and \<^verbatim>\<open>next_id\<close> starts at \<open>k\<close>; the entries one pass derives get
  the consecutive ids from the old \<^verbatim>\<open>next_id\<close> up to the new one; and no two entries
  of the returned chart share an id.
\<close>

theorem chart_ids_unique:
  "(reachable g s st \<longrightarrow>
      distinct (map index (chart st @ agenda st)) \<and>
      (\<forall>e \<in> set (chart st @ agenda st). index e < next_id st)) \<and>
   (initial_state g s = Inr st \<longrightarrow>
      map index (agenda st) = [0..<length (agenda st)] \<and> next_id st = length (agenda st)) \<and>
   (reachable g s st \<and> agenda st \<noteq> [] \<and> fill_step g st = Inr st' \<longrightarrow>
      (\<exists>new. agenda st' = tl (agenda st) @ new \<and> map index new = [next_id st..<next_id st'])) \<and>
   (fill_chart g s = Some (Inr filled) \<longrightarrow> distinct (map index filled))"
proof (intro conjI impI)
  assume r: "reachable g s st"
  from reachable_invariant [OF r]
  show "distinct (map index (chart st @ agenda st))"
    and "\<forall>e \<in> set (chart st @ agenda st). index e < next_id st"
    by (simp_all add: invariant_def)
next
  assume i: "initial_state g s = Inr st"
  from initial_state_spec [OF i]
  show "map index (agenda st) = [0..<length (agenda st)]" and "next_id st = length (agenda st)"
    by simp_all
next
  assume a: "reachable g s st \<and> agenda st \<noteq> [] \<and> fill_step g st = Inr st'"
  then have "invariant s st" using reachable_invariant by blast
  from fill_step_spec [OF this, of g st'] a obtain new where
    new: "agenda st' = tl (agenda st) @ new" "next_id st' = next_id st + length new"
         "map index new = [next_id st..<next_id st + length new]" by blast
  show "\<exists>new. agenda st' = tl (agenda st) @ new \<and> map index new = [next_id st..<next_id st']"
    using new by (intro exI [of _ new]) simp
next
  assume "fill_chart g s = Some (Inr filled)"
  from fill_chart_entries_ok [OF this] show "distinct (map index filled)" by simp
qed

theorem chart_ids_unique_witness:
  "distinct (map index small_chart) \<and>
   distinct (map index
     [\<lparr>symbol = inst ''D'' [(0, 1)], index = 0, backpointers = [[None, None]]\<rparr>,
      \<lparr>symbol = inst ''N'' [(1, 2)], index = Suc 0, backpointers = [[None, None]]\<rparr>]) \<and>
   (\<exists>new. [\<lparr>symbol = inst ''N'' [(1, 2)], index = 1, backpointers = [[None, None]]\<rparr>]
             = [\<lparr>symbol = inst ''N'' [(1, 2)], index = 1, backpointers = [[None, None]]\<rparr>] @ new \<and>
           map index new = [2..<2])"
proof -
  let ?d = "\<lparr>symbol = inst ''D'' [(0, 1)], index = 0, backpointers = [[None, None]]\<rparr>"
  let ?n = "\<lparr>symbol = inst ''N'' [(1, 2)], index = 1, backpointers = [[None, None]]\<rparr>"
  let ?st = "\<lparr>agenda = [?d, ?n], chart = [], chart_ids = {}, next_id = 2\<rparr>"
  let ?st' = "\<lparr>agenda = [?n], chart = [?d], chart_ids = {0}, next_id = 2\<rparr>"
  have r: "reachable small_grammar [''the'', ''human''] ?st"
    using small_initial by (rule reachable.start)
  have s: "fill_step small_grammar ?st = Inr ?st'"
    by code_simp
  show ?thesis
    using chart_ids_unique [of small_grammar "[''the'', ''human'']" ?st ?st' small_chart]
      r s small_chart_filled
    by simp
qed

text \<open>
  Claim C7. In every chart \<^verbatim>\<open>_fill_chart\<close> returns, every id a back-pointer of an
  entry refers to is the id of an entry of the chart, and \<^verbatim>\<open>_get_item\<close> finds it.
\<close>

theorem backpointers_resolve:
  assumes "fill_chart g s = Some (Inr filled)" and "e \<in> set filled" and "i \<in> backpointer_ids e"
  shows "\<exists>e'. get_item filled i = Some e' \<and> index e' = i \<and> e' \<in> set filled"
proof -
  from fill_chart_entries_ok [OF assms(1)] assms(2)
  have "entry_ok s (index ` set filled) e" by blast
  from entry_ok_backpointer_ids [OF this assms(3)] have "i \<in> index ` set filled" by simp
  then show ?thesis by (rule get_item_found)
qed

theorem backpointers_resolve_witness:
  "\<exists>e'. get_item small_chart 0 = Some e' \<and> index e' = 0 \<and> e' \<in> set small_chart"
proof -
  have "0 \<in> backpointer_ids \<lparr>symbol = inst ''S'' [(0, 2)], index = 2,
     backpointers = [[Some (0, ''D''), Some (1, ''N'')]]\<rparr>"
    by (simp add: backpointer_ids_def)
  from backpointers_resolve [OF small_chart_filled small_entry_2_filled this]
  show ?thesis .
qed

text \<open>
  Claim C10. In every chart \<^verbatim>\<open>_fill_chart\<close> returns, every back-pointer of an entry
  refers to an id strictly below the entry's own index, and \<^verbatim>\<open>_construct_parses\<close>
  terminates with a tree for every entry of the chart, the start entries among them.
\<close>

theorem construct_parses_terminates:
  assumes "fill_chart g s = Some (Inr filled)" and "e \<in> set filled"
  shows "(\<forall>i \<in> backpointer_ids e. i < index e) \<and>
         (\<exists>t. construct_parses filled s e = Some (Inr t))"
proof -
  from fill_chart_entries_ok [OF assms(1)]
  have ok: "\<forall>e \<in> set filled. entry_ok s (index ` set filled) e" by blast
  with assms(2) have "entry_ok s (index ` set filled) e" by blast
  then have "\<forall>i \<in> backpointer_ids e. i < index e"
    using entry_ok_backpointer_ids by blast
  moreover from construct_parses_ok [OF ok assms(2)]
  have "\<exists>t. construct_parses filled s e = Some (Inr t)" .
  ultimately show ?thesis by blast
qed

theorem construct_parses_terminates_witness:
  "0 < index \<lparr>symbol = inst ''S'' [(0, 2)], index = 2,
           backpointers = [[Some (0, ''D''), Some (1, ''N'')]]\<rparr> \<and>
   1 < index \<lparr>symbol = inst ''S'' [(0, 2)], index = 2,
           backpointers = [[Some (0, ''D''), Some (1, ''N'')]]\<rparr> \<and>
   (\<exists>t. construct_parses small_chart [''the'', ''human'']
          \<lparr>symbol = inst ''S'' [(0, 2)], index = 2,
           backpointers = [[Some (0, ''D''), Some (1, ''N'')]]\<rparr> = Some (Inr t))"
proof -
  let ?e = "\<lparr>symbol = inst ''S'' [(0, 2)], index = 2,
           backpointers = [[Some (0, ''D''), Some (1, ''N'')]]\<rparr>"
  have 0: "0 \<in> backpointer_ids ?e" and 1: "1 \<in> backpointer_ids ?e"
    by (simp_all add: backpointer_ids_def)
  from construct_parses_terminates [OF small_chart_filled small_entry_2_filled] 0 1
  show ?thesis by blast
qed

text \<open>
  Claim C1. For every grammar and token sequence \<open>s\<close>, the recognizer returns true if
  and only if \<^verbatim>\<open>_fill_chart\<close> returns a chart with an entry whose variable is the name
  of a start variable and whose spans are \<^verbatim>\<open>((0, len(s)),)\<close>; it returns false if and
  only if \<^verbatim>\<open>_fill_chart\<close> returns a chart without such an entry.
\<close>

theorem recognize_iff_start_entry:
  "(recognize g s = Some (Inr True) \<longleftrightarrow>
      (\<exists>filled. fill_chart g s = Some (Inr filled) \<and>
         (\<exists>entry \<in> set filled.
            inst_variable (symbol entry) \<in> variable ` set (start_variables g) \<and>
            string_spans (symbol entry) = [(0, length s)]))) \<and>
   (recognize g s = Some (Inr False) \<longleftrightarrow>
      (\<exists>filled. fill_chart g s = Some (Inr filled) \<and>
         \<not> (\<exists>entry \<in> set filled.
            inst_variable (symbol entry) \<in> variable ` set (start_variables g) \<and>
            string_spans (symbol entry) = [(0, length s)])))"
  by (auto simp: recognize_def start_nodes_def entry_truth_def list_ex_iff
           split: option.splits sum.splits)

theorem recognize_iff_start_entry_witness:
  "recognize small_grammar [''the'', ''human''] = Some (Inr True) \<and>
   recognize small_grammar [''the''] = Some (Inr False)"
proof -
  have 1: "\<exists>filled. fill_chart small_grammar [''the'', ''human''] = Some (Inr filled) \<and>
         (\<exists>entry \<in> set filled.
            inst_variable (symbol entry) \<in> variable ` set (start_variables small_grammar) \<and>
            string_spans (symbol entry) = [(0, length [''the'', ''human''])])"
    using small_chart_filled
    by (simp add: small_chart_def small_grammar_def inst_def)
  have 2: "\<exists>filled. fill_chart small_grammar [''the''] = Some (Inr filled) \<and>
         \<not> (\<exists>entry \<in> set filled.
            inst_variable (symbol entry) \<in> variable ` set (start_variables small_grammar) \<and>
            string_spans (symbol entry) = [(0, length [''the''])])"
    using the_chart_filled by (simp add: small_grammar_def inst_def)
  show ?thesis
    using 1 2 recognize_iff_start_entry [of small_grammar "[''the'', ''human'']"]
      recognize_iff_start_entry [of small_grammar "[''the'']"]
    by blast
qed

lemma recognize_start_nodes:
  "fill_chart g s = Some (Inr filled) \<Longrightarrow>
     recognize g s = Some (Inr (start_nodes g filled s \<noteq> []))"
  by (cases "start_nodes g filled s") (simp_all add: recognize_def entry_truth_def)

lemma parse_start_nodes:
  assumes "fill_chart g s = Some (Inr filled)"
  shows "(start_nodes g filled s = [] \<longrightarrow> parse g s = Some (Inr None)) \<and>
         (start_nodes g filled s \<noteq> [] \<longrightarrow>
            (\<exists>trees. parse g s = Some (Inr (Some trees)) \<and> trees \<noteq> {}))"
proof (intro conjI impI)
  assume "start_nodes g filled s = []"
  with assms show "parse g s = Some (Inr None)" by (simp add: parse_def)
next
  assume ne: "start_nodes g filled s \<noteq> []"
  from fill_chart_entries_ok [OF assms]
  have ok: "\<forall>e \<in> set filled. entry_ok s (index ` set filled) e" by blast
  have "\<forall>e \<in> set (start_nodes g filled s). \<exists>t. construct_parses filled s e = Some (Inr t)"
    using construct_parses_ok [OF ok] by (auto simp: start_nodes_def Let_def)
  from collect_children_ok [OF this] obtain ts where
    ts: "collect_children (construct_parses filled s) (start_nodes g filled s) = Some (Inr ts)"
        "length ts = length (start_nodes g filled s)" by blast
  have "ts \<noteq> []" using ts(2) ne by (cases ts) auto
  then have "set ts \<noteq> {}" by simp
  moreover have "1 \<le> length (start_nodes g filled s)" using ne by (cases "start_nodes g filled s") auto
  ultimately show "\<exists>trees. parse g s = Some (Inr (Some trees)) \<and> trees \<noteq> {}"
    using assms ts(1) by (simp add: parse_def)
qed

text \<open>
  Claim C2. For every grammar and token sequence, \<^verbatim>\<open>recognize\<close> returns true if and
  only if \<^verbatim>\<open>parse\<close> returns a non-empty set of trees, and \<^verbatim>\<open>recognize\<close> returns
  false if and only if \<^verbatim>\<open>parse\<close> returns its signal-empty value \<^verbatim>\<open>None\<close>; in
  particular, when the chart has no start entry covering the input, recognition returns
  false and parsing returns \<^verbatim>\<open>None\<close>.
\<close>

theorem recognize_parse_consistent:
  "(recognize g s = Some (Inr True) \<longleftrightarrow>
      (\<exists>trees. parse g s = Some (Inr (Some trees)) \<and> trees \<noteq> {})) \<and>
   (recognize g s = Some (Inr False) \<longleftrightarrow> parse g s = Some (Inr None)) \<and>
   (fill_chart g s = Some (Inr filled) \<and> start_nodes g filled s = [] \<longrightarrow>
      recognize g s = Some (Inr False) \<and> parse g s = Some (Inr None))"
proof (cases "fill_chart g s")
  case None
  then show ?thesis by (simp add: recognize_def parse_def)
next
  case (Some r)
  show ?thesis
  proof (cases r)
    case (Inl e)
    with Some show ?thesis by (simp add: recognize_def parse_def)
  next
    case (Inr ch)
    with Some have f: "fill_chart g s = Some (Inr ch)" by simp
    show ?thesis
      using recognize_start_nodes [OF f] parse_start_nodes [OF f] f
      by (cases "start_nodes g ch s = []") auto
  qed
qed

theorem recognize_parse_consistent_witness:
  "(\<exists>trees. parse small_grammar [''the'', ''human''] = Some (Inr (Some trees)) \<and> trees \<noteq> {}) \<and>
   recognize small_grammar [''the''] = Some (Inr False) \<and>
   parse small_grammar [''the''] = Some (Inr None)"
proof -
  have 1: "recognize small_grammar [''the'', ''human''] = Some (Inr True)" by code_simp
  have 2: "start_nodes small_grammar
             [\<lparr>symbol = inst ''D'' [(0, 1)], index = 0, backpointers = [[None, None]]\<rparr>] [''the''] = []"
    by code_simp
  show ?thesis
    using 1 recognize_parse_consistent [of small_grammar "[''the'', ''human'']"]
      recognize_parse_consistent [of small_grammar "[''the'']"
        "[\<lparr>symbol = inst ''D'' [(0, 1)], index = 0, backpointers = [[None, None]]\<rparr>]"]
      the_chart_filled 2
    by blast
qed

lemma seed_rules_Nil [simp]: "seed_rules [] tok idx ag = Inr ag"
  by simp

lemma seed_words_no_rules:
  "\<forall>(i, tok) \<in> set iws. parts_of_speech g tok = Inr [] \<Longrightarrow> seed_words g iws ag = Inr ag"
  by (induction iws arbitrary: ag) auto

text \<open>
  Claim C5, on the code. When no word of the token sequence has a lexical rule, and so for
  the empty token sequence, seeding leaves the agenda empty, \<^verbatim>\<open>next_id = n+1\<close> reads
  the unbound \<^verbatim>\<open>n\<close>, and both \<^verbatim>\<open>recognize\<close> and \<^verbatim>\<open>parse\<close> raise
  \<open>UnboundLocalError\<close>: they return neither false nor an empty result.
\<close>

theorem empty_agenda_raises:
  assumes "\<forall>tok \<in> set s. parts_of_speech g tok = Inr []"
  shows "recognize g s = Some (Inl UnboundLocalError) \<and>
         parse g s = Some (Inl UnboundLocalError)"
proof -
  have "\<forall>(i, tok) \<in> set (enumerate 0 s). parts_of_speech g tok = Inr []"
    using assms by (auto simp: in_set_enumerate_eq)
  then have "seed_words g (enumerate 0 s) [] = Inr []" by (rule seed_words_no_rules)
  then have "fill_chart g s = Some (Inl UnboundLocalError)"
    by (simp add: fill_chart_def initial_state_def)
  then show ?thesis by (simp add: recognize_def parse_def)
qed

theorem empty_agenda_raises_witness:
  "recognize small_grammar [] = Some (Inl UnboundLocalError) \<and>
   parse small_grammar [] = Some (Inl UnboundLocalError) \<and>
   recognize small_grammar [''greyhound''] = Some (Inl UnboundLocalError) \<and>
   parse small_grammar [''greyhound''] = Some (Inl UnboundLocalError)"
proof -
  have 1: "\<forall>tok \<in> set []. parts_of_speech small_grammar tok = Inr []" by simp
  have "parts_of_speech small_grammar ''greyhound'' = Inr []" by code_simp
  then have 2: "\<forall>tok \<in> set [''greyhound'']. parts_of_speech small_grammar tok = Inr []" by simp
  show ?thesis
    using empty_agenda_raises [OF 1] empty_agenda_raises [OF 2] by simp
qed

section \<open>Properties of the rule text\<close>

subsection \<open>The matcher\<close>

lemma first_of_unique:
  assumes "y \<in> set xs" and "f y = Some v" and "\<forall>x \<in> set xs. x \<noteq> y \<longrightarrow> f x = None"
  shows "first_of f xs = Some v"
  using assms
proof (induction xs)
  case Nil
  then show ?case by simp
next
  case (Cons x xs)
  show ?case
  proof (cases "x = y")
    case True
    with Cons.prems(2) show ?thesis by simp
  next
    case False
    with Cons.prems have "f x = None" "y \<in> set xs" by auto
    with Cons show ?thesis by simp
  qed
qed

lemma first_of_None: "\<forall>x \<in> set xs. f x = None \<Longrightarrow> first_of f xs = None"
  by (induction xs) auto

lemma greedy_plus_set:
  "set (greedy_plus (Suc k) f s)
     = set (f s) \<union> {n + m | n m. n \<in> set (f s) \<and> 0 < n \<and> m \<in> set (greedy_plus k f (drop n s))}"
  by (auto split: if_splits)

lemma lazy_plus_set:
  "set (lazy_plus (Suc k) f s)
     = set (f s) \<union> {n + m | n m. n \<in> set (f s) \<and> 0 < n \<and> m \<in> set (lazy_plus k f (drop n s))}"
  by (auto split: if_splits)

lemma ends_Seq_set:
  "set (ends (Seq a b) s) = {n + m | n m. n \<in> set (ends a s) \<and> m \<in> set (ends b (drop n s))}"
  by auto

lemma consumesD:
  "consumes P f \<Longrightarrow> n \<in> set (f s) \<Longrightarrow> n \<le> length s \<and> (\<forall>i < n. P (s ! i))"
  unfolding consumes_def by blast

lemma consumes_add:
  assumes "n \<le> length s" "\<forall>i < n. P (s ! i)" "m \<le> length (drop n s)" "\<forall>i < m. P (drop n s ! i)"
  shows "n + m \<le> length s \<and> (\<forall>i < n + m. P (s ! i))"
proof
  show "n + m \<le> length s" using assms(1,3) by simp
  show "\<forall>i < n + m. P (s ! i)"
  proof (intro allI impI)
    fix i assume i: "i < n + m"
    show "P (s ! i)"
    proof (cases "i < n")
      case True with assms(2) show ?thesis by simp
    next
      case False
      then have "i - n < m" using i by simp
      with assms(4) have "P (drop n s ! (i - n))" by simp
      moreover have "drop n s ! (i - n) = s ! i" using False assms(1) by simp
      ultimately show ?thesis by simp
    qed
  qed
qed

lemma greedy_plus_consumes:
  assumes "consumes P f"
  shows "n \<in> set (greedy_plus k f s) \<Longrightarrow> n \<le> length s \<and> (\<forall>i < n. P (s ! i))"
proof (induction k arbitrary: n s)
  case 0
  then show ?case by simp
next
  case (Suc k)
  from Suc.prems have "n \<in> set (f s) \<or>
      (\<exists>a b. n = a + b \<and> a \<in> set (f s) \<and> 0 < a \<and> b \<in> set (greedy_plus k f (drop a s)))"
    unfolding greedy_plus_set by blast
  then show ?case
  proof
    assume "n \<in> set (f s)"
    with assms show ?thesis by (simp add: consumes_def)
  next
    assume "\<exists>a b. n = a + b \<and> a \<in> set (f s) \<and> 0 < a \<and> b \<in> set (greedy_plus k f (drop a s))"
    then obtain a b where ab: "n = a + b" "a \<in> set (f s)" "b \<in> set (greedy_plus k f (drop a s))"
      by blast
    from consumesD [OF assms ab(2)] have a: "a \<le> length s" "\<forall>i < a. P (s ! i)" by blast+
    from Suc.IH [OF ab(3)] have b: "b \<le> length (drop a s)" "\<forall>i < b. P (drop a s ! i)" by blast+
    from consumes_add [OF a b] ab(1) show ?thesis by simp
  qed
qed

lemma lazy_plus_consumes:
  assumes "consumes P f"
  shows "n \<in> set (lazy_plus k f s) \<Longrightarrow> n \<le> length s \<and> (\<forall>i < n. P (s ! i))"
proof (induction k arbitrary: n s)
  case 0
  then show ?case by simp
next
  case (Suc k)
  from Suc.prems have "n \<in> set (f s) \<or>
      (\<exists>a b. n = a + b \<and> a \<in> set (f s) \<and> 0 < a \<and> b \<in> set (lazy_plus k f (drop a s)))"
    unfolding lazy_plus_set by blast
  then show ?case
  proof
    assume "n \<in> set (f s)"
    with assms show ?thesis by (simp add: consumes_def)
  next
    assume "\<exists>a b. n = a + b \<and> a \<in> set (f s) \<and> 0 < a \<and> b \<in> set (lazy_plus k f (drop a s))"
    then obtain a b where ab: "n = a + b" "a \<in> set (f s)" "b \<in> set (lazy_plus k f (drop a s))"
      by blast
    from consumesD [OF assms ab(2)] have a: "a \<le> length s" "\<forall>i < a. P (s ! i)" by blast+
    from Suc.IH [OF ab(3)] have b: "b \<le> length (drop a s)" "\<forall>i < b. P (drop a s ! i)" by blast+
    from consumes_add [OF a b] ab(1) show ?thesis by simp
  qed
qed

lemma ends_consumes: "leaves_in P r \<Longrightarrow> consumes P (ends r)"
proof (induction r)
  case (Lit c)
  then show ?case by (auto simp: consumes_def split: list.splits if_splits)
next
  case WordChar
  then show ?case by (auto simp: consumes_def split: list.splits if_splits)
next
  case Eps
  then show ?case by (simp add: consumes_def)
next
  case (Seq a b)
  then have a: "consumes P (ends a)" and b: "consumes P (ends b)" by simp_all
  show ?case
    unfolding consumes_def
  proof (intro allI impI)
    fix s n assume "n \<in> set (ends (Seq a b) s)"
    then obtain i j where ij: "n = i + j" "i \<in> set (ends a s)" "j \<in> set (ends b (drop i s))"
      unfolding ends_Seq_set by blast
    from consumesD [OF a ij(2)] have 1: "i \<le> length s" "\<forall>k < i. P (s ! k)" by blast+
    from consumesD [OF b ij(3)] have 2: "j \<le> length (drop i s)" "\<forall>k < j. P (drop i s ! k)"
      by blast+
    from consumes_add [OF 1 2] ij(1) show "n \<le> length s \<and> (\<forall>i < n. P (s ! i))" by simp
  qed
next
  case (Alt a b)
  then show ?case by (auto simp: consumes_def)
next
  case (Opt a)
  then show ?case by (auto simp: consumes_def)
next
  case (Plus a)
  then have "consumes P (ends a)" by simp
  from greedy_plus_consumes [OF this] show ?case
    by (simp add: consumes_def del: greedy_plus.simps)
next
  case (LazyPlus a)
  then have "consumes P (ends a)" by simp
  from lazy_plus_consumes [OF this] show ?case
    by (simp add: consumes_def del: lazy_plus.simps)
qed

lemma greedy_word_complete:
  "w \<noteq> [] \<Longrightarrow> \<forall>c \<in> set w. word_char c \<Longrightarrow> length w \<le> k \<Longrightarrow>
     length w \<in> set (greedy_plus k (ends WordChar) (w @ rest))"
proof (induction w arbitrary: k)
  case Nil
  then show ?case by simp
next
  case (Cons c w)
  then obtain k' where k: "k = Suc k'" "length w \<le> k'" by (cases k) auto
  from Cons.prems have c: "1 \<in> set (ends WordChar ((c # w) @ rest))" by simp
  show ?case
  proof (cases "w = []")
    case True
    with c k show ?thesis unfolding k(1) greedy_plus_set by simp
  next
    case False
    from Cons.IH [OF False _ k(2)] Cons.prems
    have "length w \<in> set (greedy_plus k' (ends WordChar) (w @ rest))" by simp
    then have "1 + length w \<in> {n + m | n m. n \<in> set (ends WordChar ((c # w) @ rest)) \<and> 0 < n \<and>
                  m \<in> set (greedy_plus k' (ends WordChar) (drop n ((c # w) @ rest)))}"
      using c by (intro CollectI exI [of _ 1] exI [of _ "length w"]) simp
    then show ?thesis unfolding k(1) greedy_plus_set by simp
  qed
qed

lemma ends_word_complete: "word w \<Longrightarrow> length w \<in> set (ends (Plus WordChar) (w @ rest))"
  using greedy_word_complete [of w "Suc (length (w @ rest))" rest]
  by (simp add: word_def del: greedy_plus.simps)

subsection \<open>The pattern of an element on a printed element\<close>

lemma not_word_char [simp]:
  "\<not> word_char CHR ''(''" "\<not> word_char CHR '')''" "\<not> word_char CHR '',''"
  "\<not> word_char CHR '' ''" "\<not> word_char CHR ''-''" "\<not> word_char CHR ''>''"
  by (simp_all add: word_char_def)

lemma content_char_paren [simp]: "\<not> content_char CHR '')''"
  by (simp add: content_char_def)

lemma elem_pattern_token: 
  "elem_pattern = [Plus WordChar, Lit CHR ''('', LazyPlus token_re, Lit CHR '')'']"
  by (simp add: elem_pattern_def token_re_def)

lemma separator_ends:
  assumes "separator sep"
  shows "length sep \<in> set (ends (Seq (Opt (Lit CHR '','')) (Opt (Lit CHR '' ''))) (sep @ rest))"
proof -
  from assms consider "sep = []" | "sep = '',''" | "sep = '' ''" | "sep = '', ''"
    by (auto simp: separator_def)
  then show ?thesis
  proof cases
    case 1
    then show ?thesis unfolding ends_Seq_set by (auto split: list.splits)
  next
    case 2
    then show ?thesis by (auto split: list.splits)
  next
    case 3
    then show ?thesis by (auto split: list.splits)
  next
    case 4
    then show ?thesis by simp
  qed
qed

lemma token_complete:
  assumes "word w" "separator sep"
  shows "length w + length sep \<in> set (ends token_re (w @ sep @ rest))"
proof -
  have "length sep \<in> set (ends (Seq (Opt (Lit CHR '','')) (Opt (Lit CHR '' '')))
                           (drop (length w) (w @ sep @ rest)))"
    using separator_ends [OF assms(2), of rest] by simp
  with ends_word_complete [OF assms(1), of "sep @ rest"]
  show ?thesis
    unfolding token_re_def ends_Seq_set [of "Plus WordChar"] by blast
qed

lemma word_length: "word w \<Longrightarrow> 0 < length w"
  by (simp add: word_def)

lemma lazy_tokens_complete:
  "tokens c \<Longrightarrow> length c \<le> k \<Longrightarrow> length c \<in> set (lazy_plus k (ends token_re) (c @ rest))"
proof (induction arbitrary: k rule: tokens.induct)
  case (last_token w sep)
  from word_length [OF last_token(1)] last_token(3) obtain k' where k: "k = Suc k'"
    by (cases k) auto
  from token_complete [OF last_token(1,2), of rest] show ?case
    unfolding k lazy_plus_set by simp
next
  case (next_token w sep c)
  from word_length [OF next_token(1)] next_token.prems have "length c < k"
    by (simp del: length_greater_0_conv)
  then obtain k' where k: "k = Suc k'" "length c \<le> k'" by (cases k) auto
  from next_token.IH [OF k(2)]
  have ih: "length c \<in> set (lazy_plus k' (ends token_re) (c @ rest))" .
  have t: "length w + length sep \<in> set (ends token_re ((w @ sep @ c) @ rest))"
    using token_complete [OF next_token(1,2), of "c @ rest"] by simp
  have d: "drop (length w + length sep) ((w @ sep @ c) @ rest) = c @ rest"
    by simp
  have pos: "0 < length w + length sep"
    using word_length [OF next_token(1)] by simp
  have "(length w + length sep) + length c
          \<in> {n + m | n m. n \<in> set (ends token_re ((w @ sep @ c) @ rest)) \<and> 0 < n \<and>
               m \<in> set (lazy_plus k' (ends token_re) (drop n ((w @ sep @ c) @ rest)))}"
    using t ih d pos
    by (intro CollectI exI [of _ "length w + length sep"] exI [of _ "length c"])
       (simp del: append_assoc)
  then have "(length w + length sep) + length c
          \<in> set (lazy_plus (Suc k') (ends token_re) ((w @ sep @ c) @ rest))"
    unfolding lazy_plus_set by blast
  then show ?case unfolding k(1) by (simp add: add.commute add.left_commute)
qed

lemma content_complete:
  assumes "tokens c"
  shows "length c \<in> set (ends (LazyPlus token_re) (c @ rest))"
  using lazy_tokens_complete [OF assms, of "Suc (length (c @ rest))" rest]
  by (simp del: lazy_plus.simps)

lemma tokens_content_chars: "tokens c \<Longrightarrow> \<forall>x \<in> set c. content_char x"
  by (induction rule: tokens.induct) (auto simp: content_char_def word_def separator_def)

lemma leaves_token: "leaves_in content_char (LazyPlus token_re)"
  by (simp add: token_re_def content_char_def)

lemma leaves_word: "leaves_in word_char (Plus WordChar)"
  by simp

lemma match_close:
  "match_here False [Lit CHR '')''] (CHR '')'' # tail) c = Some [1]"
  by simp

lemma match_elem:
  assumes V: "word V" and c: "tokens c"
  shows "match_here False elem_pattern (V @ ''('' @ c @ '')'' @ tail) 0
           = Some [length V, 1, length c, 1]"
proof -
  let ?c = c
  let ?s2 = "?c @ '')'' @ tail"
  let ?s = "V @ ''('' @ ?s2"
  let ?f2 = "\<lambda>n. map_option ((#) n) (match_here False [Lit CHR '')''] (drop n ?s2) (length V + 1 + n))"
  have cc: "\<forall>c \<in> set ?c. content_char c" by (rule tokens_content_chars [OF c])
  have inner: "first_of ?f2 (ends (LazyPlus token_re) ?s2) = Some [length ?c, 1]"
  proof (rule first_of_unique [where y = "length ?c"])
    show "length ?c \<in> set (ends (LazyPlus token_re) ?s2)"
      by (rule content_complete [OF c])
    show "?f2 (length ?c) = Some [length ?c, 1]" by simp
    show "\<forall>n \<in> set (ends (LazyPlus token_re) ?s2). n \<noteq> length ?c \<longrightarrow> ?f2 n = None"
    proof (intro ballI impI)
      fix n assume n: "n \<in> set (ends (LazyPlus token_re) ?s2)" and ne: "n \<noteq> length ?c"
      from consumesD [OF ends_consumes [OF leaves_token] n]
      have le: "n \<le> length ?s2" and ch: "\<forall>i < n. content_char (?s2 ! i)" by blast+
      have "n \<le> length ?c"
      proof (rule ccontr)
        assume "\<not> n \<le> length ?c"
        then have "length ?c < n" by simp
        with ch have "content_char (?s2 ! length ?c)" by blast
        then show False by (simp add: nth_append)
      qed
      with ne have lt: "n < length ?c" by simp
      then obtain x rest where d: "drop n ?s2 = x # rest" and x: "x = ?c ! n"
        by (cases "drop n ?s2") (auto simp: nth_append dest: arg_cong [where f = hd] simp: hd_drop_conv_nth)
      from lt cc x have "content_char x" by simp
      then have "x \<noteq> CHR '')''" by auto
      with d show "?f2 n = None" by simp
    qed
  qed
  let ?f1 = "\<lambda>n. map_option ((#) n)
      (match_here False [Lit CHR ''('', LazyPlus token_re, Lit CHR '')''] (drop n ?s) (0 + n))"
  have outer: "first_of ?f1 (ends (Plus WordChar) ?s) = Some [length V, 1, length ?c, 1]"
  proof (rule first_of_unique [where y = "length V"])
    show "length V \<in> set (ends (Plus WordChar) ?s)" by (rule ends_word_complete [OF V])
    show "?f1 (length V) = Some [length V, 1, length ?c, 1]"
      using inner by (simp del: ends.simps(8) add: add.commute)
    show "\<forall>n \<in> set (ends (Plus WordChar) ?s). n \<noteq> length V \<longrightarrow> ?f1 n = None"
    proof (intro ballI impI)
      fix n assume n: "n \<in> set (ends (Plus WordChar) ?s)" and ne: "n \<noteq> length V"
      from consumesD [OF ends_consumes [OF leaves_word] n]
      have ch: "\<forall>i < n. word_char (?s ! i)" by blast
      have "n \<le> length V"
      proof (rule ccontr)
        assume "\<not> n \<le> length V"
        then have "length V < n" by simp
        with ch have "word_char (?s ! length V)" by blast
        then show False by (simp add: nth_append)
      qed
      with ne have lt: "n < length V" by simp
      then have d: "drop n ?s = V ! n # drop (Suc n) V @ ''('' @ ?s2"
        by (simp add: Cons_nth_drop_Suc)
      from lt V have "word_char (V ! n)" by (simp add: word_def)
      then have "V ! n \<noteq> CHR ''(''" by auto
      with d show "?f1 n = None" by simp
    qed
  qed
  show ?thesis
    unfolding elem_pattern_token using outer by (simp del: ends.simps)
qed

lemma no_match_nonword: "\<not> word_char x \<Longrightarrow> match_here adv elem_pattern (x # s) c = None"
  by (simp add: elem_pattern_def)

lemma no_match_empty: "match_here adv elem_pattern [] c = None"
  by (simp add: elem_pattern_def)

lemma search_sep:
  "\<forall>x \<in> set sep. \<not> word_char x \<Longrightarrow> match_here False elem_pattern t 0 = Some ns \<Longrightarrow>
     search False elem_pattern (sep @ t) = Some (length sep, ns)"
proof (induction sep)
  case Nil
  then show ?case by (cases t) simp_all
next
  case (Cons x sep)
  then show ?case by (simp add: no_match_nonword)
qed

lemma findall_from_empty: "findall_from False elem_pattern [] = []"
  by (subst findall_from.simps) (simp add: no_match_empty)

lemma findall_items:
  "\<forall>item \<in> set items. good_item item \<Longrightarrow>
     findall_from False elem_pattern (concat (map (\<lambda>(sep, V, ws). sep @ elem_text V ws) items))
       = map (\<lambda>(sep, V, ws). [V, ''('', join '', '' ws, '')'']) items"
proof (induction items)
  case Nil
  then show ?case by (simp add: findall_from_empty)
next
  case (Cons item items)
  obtain sep V ws where item: "item = (sep, V, ws)" by (cases item)
  with Cons.prems have g: "\<forall>x \<in> set sep. \<not> word_char x" "word V" "tokens (join '', '' ws)"
    by (simp_all add: good_item_def)
  let ?rest = "concat (map (\<lambda>(sep, V, ws). sep @ elem_text V ws) items)"
  let ?c = "join '', '' ws"
  let ?t = "V @ ''('' @ ?c @ '')'' @ ?rest"
  let ?ns = "[length V, 1, length ?c, 1]"
  have m: "match_here False elem_pattern ?t 0 = Some ?ns"
    by (rule match_elem [OF g(2,3)])
  have s: "search False elem_pattern (sep @ ?t) = Some (length sep, ?ns)"
    by (rule search_sep [OF g(1) m])
  have whole: "concat (map (\<lambda>(sep, V, ws). sep @ elem_text V ws) (item # items)) = sep @ ?t"
    by (simp add: item elem_text_def)
  have p: "pieces ?ns (drop (length sep) (sep @ ?t)) = [V, ''('', ?c, '')'']"
    by simp
  have d: "drop (length sep + sum_list ?ns) (sep @ ?t) = ?rest"
    by simp
  have ne: "sum_list ?ns \<noteq> 0" by simp
  have "findall_from False elem_pattern (sep @ ?t)
          = pieces ?ns (drop (length sep) (sep @ ?t)) #
            findall_from (sum_list ?ns = 0) elem_pattern (drop (length sep + sum_list ?ns) (sep @ ?t))"
    by (subst findall_from.simps) (simp only: s option.case prod.case)
  also have "\<dots> = [V, ''('', ?c, '')''] # findall_from False elem_pattern ?rest"
    using ne by (simp only: p d)
  finally show ?case
    using Cons.IH Cons.prems by (simp add: item elem_text_def)
qed

subsection \<open>split and strip\<close>

lemma word_no_comma: "word w \<Longrightarrow> CHR '','' \<notin> set w"
  by (auto simp: word_def)

lemma split_comma_plain: "CHR '','' \<notin> set w \<Longrightarrow> split_comma w = [w]"
  by (induction w) auto

lemma split_comma_append:
  "CHR '','' \<notin> set w \<Longrightarrow> split_comma (w @ CHR '','' # rest) = w # split_comma rest"
  by (induction w) auto

lemma split_comma_join:
  "ws \<noteq> [] \<Longrightarrow> \<forall>w \<in> set ws. CHR '','' \<notin> set w \<Longrightarrow>
     split_comma (join '', '' ws) = hd ws # map ((#) CHR '' '') (tl ws)"
proof (induction ws)
  case Nil
  then show ?case by simp
next
  case (Cons w ws)
  from Cons.prems have w: "CHR '','' \<notin> set w" by simp
  show ?case
  proof (cases ws)
    case Nil
    with w show ?thesis by (simp add: split_comma_plain)
  next
    case (Cons w' ws')
    with Cons.IH Cons.prems
    have ih: "split_comma (join '', '' ws) = w' # map ((#) CHR '' '') ws'" by simp
    have j: "join '', '' (w # ws) = w @ CHR '','' # CHR '' '' # join '', '' ws"
      using Cons by simp
    have "split_comma (join '', '' (w # ws)) = w # split_comma (CHR '' '' # join '', '' ws)"
      unfolding j by (rule split_comma_append [OF w])
    also have "split_comma (CHR '' '' # join '', '' ws) = (CHR '' '' # w') # map ((#) CHR '' '') ws'"
      using ih by simp
    finally show ?thesis using Cons by simp
  qed
qed

lemma split_comma_nonempty: "split_comma s \<noteq> []"
  by (induction s) (auto split: list.splits)

lemma split_comma_single: "split_comma c = [x] \<Longrightarrow> CHR '','' \<notin> set c \<and> x = c"
proof (induction c arbitrary: x)
  case Nil
  then show ?case by simp
next
  case (Cons a s)
  show ?case
  proof (cases "a = CHR '',''")
    case True
    with Cons.prems split_comma_nonempty [of s] show ?thesis by simp
  next
    case False
    with Cons.prems split_comma_nonempty [of s] obtain w where "split_comma s = [w]" "x = a # w"
      by (auto split: list.splits)
    with Cons.IH [of w] False show ?thesis by simp
  qed
qed

lemma word_char_not_whitespace: "word_char c \<Longrightarrow> \<not> whitespace c"
  by (auto simp: word_char_def whitespace_def Let_def)

lemma whitespace_space [simp]: "whitespace CHR '' ''"
  by (simp add: whitespace_def)

lemma dropWhile_word: "word w \<Longrightarrow> dropWhile whitespace w = w"
  by (cases w) (auto simp: word_def word_char_not_whitespace)

lemma dropWhile_rev_word: "word w \<Longrightarrow> dropWhile whitespace (rev w) = rev w"
proof -
  assume w: "word w"
  then have "word (rev w)" by (simp add: word_def)
  then show ?thesis by (rule dropWhile_word)
qed

lemma strip_word: "word w \<Longrightarrow> strip w = w"
  by (simp add: strip_def dropWhile_word dropWhile_rev_word)

lemma strip_Nil: "strip [] = []"
  by (simp add: strip_def)

lemma strip_space: "strip (CHR '' '' # w) = strip w"
  by (simp add: strip_def)

lemma strip_spaced: "\<forall>w \<in> set ws. strip w = w \<Longrightarrow> map strip (map ((#) CHR '' '') ws) = ws"
  by (induction ws) (simp_all add: strip_space)

lemma strip_split_join:
  assumes "ws \<noteq> []" "\<forall>w \<in> set ws. CHR '','' \<notin> set w \<and> strip w = w"
  shows "map strip (split_comma (join '', '' ws)) = ws"
proof -
  from assms obtain w ws' where ws: "ws = w # ws'" by (cases ws) auto
  with assms(2) have "strip w = w" "\<forall>w \<in> set ws'. strip w = w" by simp_all
  then have "strip w = w" "map strip (map ((#) CHR '' '') ws') = ws'"
    by (simp_all add: strip_spaced del: map_map)
  moreover have "split_comma (join '', '' ws) = hd ws # map ((#) CHR '' '') (tl ws)"
    using assms by (intro split_comma_join) auto
  ultimately show ?thesis
    using ws by (simp del: map_map)
qed

lemma strip_ends:
  assumes "x \<noteq> []" "\<not> whitespace (hd x)" "\<not> whitespace (last x)"
  shows "strip x = x" and "strip (x @ '' '') = x"
proof -
  from assms(1,2) have d: "dropWhile whitespace x = x" by (cases x) simp_all
  from assms(1,3) have r: "dropWhile whitespace (rev x) = rev x"
    by (cases "rev x") (simp_all add: hd_rev [symmetric])
  show "strip x = x" by (simp add: strip_def d r)
  from assms(1,2) have "dropWhile whitespace (x @ '' '') = x @ '' ''" by (cases x) simp_all
  then show "strip (x @ '' '') = x" by (simp add: strip_def r)
qed

subsection \<open>The texts the pattern of an element reads\<close>

lemma tokens_hd: "tokens c \<Longrightarrow> c \<noteq> [] \<and> word_char (hd c)"
  by (induction rule: tokens.induct) (auto simp: word_def)

lemma word_last: "word w \<Longrightarrow> word_char (last w)"
  by (simp add: word_def)

lemma tokens_trim:
  "tokens c \<Longrightarrow> CHR '','' \<notin> set c \<Longrightarrow>
     \<exists>d. tokens d \<and> word_char (last d) \<and> CHR '','' \<notin> set d \<and> (c = d \<or> c = d @ '' '')"
proof (induction rule: tokens.induct)
  case (last_token w sep)
  then have sep: "sep = [] \<or> sep = '' ''" by (auto simp: separator_def)
  have "tokens (w @ [])" by (rule tokens.last_token [OF last_token(1)]) (simp add: separator_def)
  then have "tokens w" by simp
  with sep last_token(1,3) word_last [OF last_token(1)] show ?case
    by (intro exI [of _ w]) auto
next
  case (next_token w sep c)
  then obtain d where d: "tokens d" "word_char (last d)" "CHR '','' \<notin> set d"
    "c = d \<or> c = d @ '' ''" by auto
  from tokens_hd [OF d(1)] have ne: "d \<noteq> []" by simp
  have "tokens (w @ sep @ d)" by (rule tokens.next_token [OF next_token(1,2) d(1)])
  moreover have "word_char (last (w @ sep @ d))" using d(2) ne by simp
  moreover have "CHR '','' \<notin> set (w @ sep @ d)" using next_token.prems d(3) by auto
  moreover have "w @ sep @ c = w @ sep @ d \<or> w @ sep @ c = (w @ sep @ d) @ '' ''"
    using d(4) by auto
  ultimately show ?case by blast
qed

lemma strip_tokens:
  assumes "tokens c" "CHR '','' \<notin> set c"
  shows "tokens (strip c) \<and> CHR '','' \<notin> set (strip c) \<and> strip (strip c) = strip c"
proof -
  from tokens_trim [OF assms] obtain d where d: "tokens d" "word_char (last d)"
    "CHR '','' \<notin> set d" "c = d \<or> c = d @ '' ''" by blast
  from tokens_hd [OF d(1)] have ne: "d \<noteq> []" and h: "\<not> whitespace (hd d)"
    by (simp_all add: word_char_not_whitespace)
  from d(2) have l: "\<not> whitespace (last d)" by (rule word_char_not_whitespace)
  from d(4) strip_ends [OF ne h l] have "strip c = d" by auto
  with d strip_ends(1) [OF ne h l] show ?thesis by simp
qed

lemma tokens_join:
  assumes "ws \<noteq> []" "\<forall>w \<in> set ws. word w"
  shows "tokens (join '', '' ws)" and "tokens (join '', '' (ws @ [[]]))"
proof -
  have "tokens (join '', '' ws) \<and> tokens (join '', '' (ws @ [[]]))"
    using assms
  proof (induction ws rule: list_nonempty_induct)
    case (single w)
    then have w: "word w" by simp
    have "tokens (w @ [])" by (rule tokens.last_token [OF w]) (simp add: separator_def)
    moreover have "tokens (w @ '', '')" by (rule tokens.last_token [OF w]) (simp add: separator_def)
    ultimately show ?case by simp
  next
    case (cons w ws)
    then obtain w' ws' where ws: "ws = w' # ws'" by (cases ws) auto
    from cons have w: "word w" and ih: "tokens (join '', '' ws)" "tokens (join '', '' (ws @ [[]]))"
      by simp_all
    have s: "separator '', ''" by (simp add: separator_def)
    from tokens.next_token [OF w s ih(1)] tokens.next_token [OF w s ih(2)]
    show ?case by (simp add: ws)
  qed
  then show "tokens (join '', '' ws)" and "tokens (join '', '' (ws @ [[]]))" by simp_all
qed

subsection \<open>digits\<close>

lemma digits_small: "i < 10 \<Longrightarrow> digits i = [char_of (48 + i)]"
  by (subst digits.simps) simp

lemma of_char_digit: "i < 10 \<Longrightarrow> (of_char (char_of (48 + i :: nat)) :: nat) = 48 + i"
  by simp

lemma word_char_digit: "i < 10 \<Longrightarrow> word_char (char_of (48 + (i :: nat)))"
  unfolding word_char_def Let_def by (simp only: of_char_digit) simp

lemma digit_inj:
  fixes i j :: nat
  shows "i < 10 \<Longrightarrow> j < 10 \<Longrightarrow> char_of (48 + i) = (char_of (48 + j) :: char) \<Longrightarrow> i = j"
proof -
  assume i: "i < 10" and j: "j < 10" and e: "char_of (48 + i) = (char_of (48 + j) :: char)"
  then have "(of_char (char_of (48 + i) :: char) :: nat) = of_char (char_of (48 + j) :: char)" by simp
  with i j show "i = j" by (simp only: of_char_digit)
qed

lemma word_digits: "i < 10 \<Longrightarrow> word (digits i)"
  by (simp add: digits_small word_def word_char_digit)

lemma distinct_digits: "n \<le> 10 \<Longrightarrow> distinct (map digits [0..<n])"
proof -
  assume n: "n \<le> 10"
  have "inj_on digits {0..<n}"
  proof (rule inj_onI)
    fix i j assume "i \<in> {0..<n}" "j \<in> {0..<n}" "digits i = digits j"
    with n have "i < 10" "j < 10" "char_of (48 + i) = (char_of (48 + j) :: char)"
      by (simp_all add: digits_small)
    then show "i = j" by (rule digit_inj)
  qed
  then show ?thesis by (simp add: distinct_map)
qed

lemma index_of_nth: "distinct xs \<Longrightarrow> i < length xs \<Longrightarrow> index_of xs (xs ! i) = i"
proof (induction xs arbitrary: i)
  case Nil
  then show ?case by simp
next
  case (Cons x xs)
  then show ?case by (cases i) auto
qed

lemma index_of_digits: "n \<le> 10 \<Longrightarrow> i < n \<Longrightarrow> index_of (map digits [0..<n]) (digits i) = i"
  using index_of_nth [OF distinct_digits, of n i] by simp

subsection \<open>The pattern of the string variables\<close>

lemma ends_literal_single:
  "ends (literal [c]) (x # rest) = (if x = c then [1] else [])" "ends (literal [c]) [] = []"
  by simp_all

lemma ends_alternatives_chars:
  "cs \<noteq> [] \<Longrightarrow>
     set (ends (alternatives (map (\<lambda>c. [c]) cs)) (x # rest)) = (if x \<in> set cs then {1} else {}) \<and>
     ends (alternatives (map (\<lambda>c. [c]) cs)) [] = []"
proof (induction cs rule: list_nonempty_induct)
  case (single c)
  then show ?case by simp
next
  case (cons c cs)
  then obtain c' cs' where cs: "cs = c' # cs'" by (cases cs) auto
  have "alternatives (map (\<lambda>c. [c]) (c # cs)) = Alt (literal [c]) (alternatives (map (\<lambda>c. [c]) cs))"
    by (simp add: cs)
  with cons.IH show ?case
    by (auto simp: ends_literal_single simp del: alternatives.simps literal.simps)
qed

lemma match_alternative:
  assumes "cs \<noteq> []" "x \<in> set cs"
  shows "match_here False [alternatives (map (\<lambda>c. [c]) cs)] (x # rest) 0 = Some [1]"
proof -
  let ?f = "\<lambda>n. map_option ((#) n) (match_here False [] (drop n (x # rest)) (0 + n))"
  from ends_alternatives_chars [OF assms(1), of x rest] assms(2)
  have s: "set (ends (alternatives (map (\<lambda>c. [c]) cs)) (x # rest)) = {1}" by simp
  have "first_of ?f (ends (alternatives (map (\<lambda>c. [c]) cs)) (x # rest)) = Some [1]"
  proof (rule first_of_unique [where y = 1])
    show "1 \<in> set (ends (alternatives (map (\<lambda>c. [c]) cs)) (x # rest))" using s by simp
    show "?f 1 = Some [1]" by simp
    show "\<forall>n \<in> set (ends (alternatives (map (\<lambda>c. [c]) cs)) (x # rest)). n \<noteq> 1 \<longrightarrow> ?f n = None"
      using s by simp
  qed
  then show ?thesis by simp
qed

lemma findall_chars:
  assumes "cs \<noteq> []"
  shows "set xs \<subseteq> set cs \<Longrightarrow>
           findall_from False [alternatives (map (\<lambda>c. [c]) cs)] xs = map (\<lambda>x. [[x]]) xs"
proof (induction xs)
  case Nil
  from ends_alternatives_chars [OF assms, of undefined "[]"]
  have "ends (alternatives (map (\<lambda>c. [c]) cs)) [] = []" by simp
  then have "search False [alternatives (map (\<lambda>c. [c]) cs)] [] = None" by simp
  then show ?case by (subst findall_from.simps) simp
next
  case (Cons x xs)
  then have x: "x \<in> set cs" by simp
  have "search False [alternatives (map (\<lambda>c. [c]) cs)] (x # xs) = Some (0, [1])"
    using match_alternative [OF assms x, of xs] by simp
  then have "findall_from False [alternatives (map (\<lambda>c. [c]) cs)] (x # xs)
               = [[x]] # findall_from False [alternatives (map (\<lambda>c. [c]) cs)] xs"
    by (subst findall_from.simps) simp
  with Cons show ?case by simp
qed

subsection \<open>Parsing a printed rule\<close>

lemma element_str_text: "element_str el = elem_text (variable el) (comp_strs el)"
  by (simp add: element_str_def elem_text_def comp_strs_def)

lemma join_concat: "join sep (x # xs) = x @ concat (map (\<lambda>y. sep @ y) xs)"
  by (induction xs arbitrary: x) simp_all

lemma not_word_sep:
  "\<forall>x \<in> set '' -> ''. \<not> word_char x" "\<forall>x \<in> set '' ''. \<not> word_char x"
  by simp_all

lemma rule_str_items:
  "rule_str r = concat (map (\<lambda>(sep, V, ws). sep @ elem_text V ws) (rule_items r))"
proof (cases "right_side r")
  case Nil
  then show ?thesis by (simp add: rule_str_def is_epsilon_def rule_items_def element_str_text)
next
  case (Cons e1 es)
  have "concat (map (\<lambda>y. '' '' @ y) (map element_str es))
          = concat (map (\<lambda>(sep, V, ws). sep @ elem_text V ws)
                        (map (\<lambda>el. ('' '', variable el, comp_strs el)) es))"
    by (induction es) (simp_all add: element_str_text)
  then show ?thesis
    using Cons
    by (simp add: rule_str_def is_epsilon_def rule_items_def join_concat element_str_text
             del: join.simps)
qed

lemma rule_items_good:
  assumes "good_element (left_side r)" "\<forall>el \<in> set (right_side r). good_element el"
  shows "\<forall>item \<in> set (rule_items r). good_item item"
  using assms
  by (cases "right_side r") (auto simp: rule_items_def good_item_def good_element_def)

lemma rule_items_tuples:
  "map (\<lambda>(sep, V, ws). (V, ws)) (rule_items r)
     = map (\<lambda>el. (variable el, comp_strs el)) (left_side r # right_side r)"
  by (cases "right_side r") (simp_all add: rule_items_def)

lemma elem_tuples_of_str:
  assumes "good_element (left_side r)" "\<forall>el \<in> set (right_side r). good_element el"
  shows "map (\<lambda>(var, svs). (var, map strip (split_comma svs)))
           (map (\<lambda>groups. (groups ! 0, groups ! 2)) (findall elem_pattern (rule_str r)))
         = map (\<lambda>el. (variable el, comp_strs el)) (left_side r # right_side r)"
proof -
  have g: "\<forall>item \<in> set (rule_items r). good_item item" by (rule rule_items_good [OF assms])
  have "findall elem_pattern (rule_str r)
          = map (\<lambda>(sep, V, ws). [V, ''('', join '', '' ws, '')'']) (rule_items r)"
    unfolding findall_def rule_str_items by (rule findall_items [OF g])
  then have "map (\<lambda>(var, svs). (var, map strip (split_comma svs)))
           (map (\<lambda>groups. (groups ! 0, groups ! 2)) (findall elem_pattern (rule_str r)))
         = map (\<lambda>(sep, V, ws). (V, map strip (split_comma (join '', '' ws)))) (rule_items r)"
    by (simp add: case_prod_beta comp_def)
  also have "\<dots> = map (\<lambda>(sep, V, ws). (V, ws)) (rule_items r)"
  proof (rule map_cong [OF refl])
    fix item assume "item \<in> set (rule_items r)"
    with g have "good_item item" by blast
    then show "(case item of (sep, V, ws) \<Rightarrow> (V, map strip (split_comma (join '', '' ws))))
                 = (case item of (sep, V, ws) \<Rightarrow> (V, ws))"
      by (auto simp: good_item_def strip_split_join)
  qed
  finally show ?thesis by (simp only: rule_items_tuples)
qed

lemma from_string_valid: "from_string s = Inr r \<Longrightarrow> validate r = Inr ()"
  by (auto simp: from_string_def construct_def Let_def
           split: if_splits list.splits sum.splits prod.splits)

lemma surjective_element:
  "\<lparr>variable = variable el, string_variables = string_variables el\<rparr> = (el :: MCFGRuleElement)"
  by simp

lemma surjective_rule:
  "\<lparr>left_side = left_side r, right_side = right_side r\<rparr> = (r :: MCFGRule)"
  by simp

lemma ids_chars:
  "\<forall>i \<in> set ids. i < 10 \<Longrightarrow>
     concat (map strvar_str (map Id ids)) = map (\<lambda>i. char_of (48 + i)) ids"
  by (induction ids) (simp_all add: digits_small)

lemma ids_of_component:
  "\<forall>v \<in> set vs. \<exists>i < n. v = Id i \<Longrightarrow> \<exists>ids. vs = map Id ids \<and> (\<forall>i \<in> set ids. i < n)"
proof (induction vs)
  case Nil
  then show ?case by simp
next
  case (Cons v vs)
  then obtain ids where ids: "vs = map Id ids" "\<forall>i \<in> set ids. i < n" by auto
  from Cons.prems obtain i where i: "i < n" "v = Id i" by auto
  show ?case using ids i by (intro exI [of _ "i # ids"]) simp
qed

lemma digits_as_chars:
  "n \<le> 10 \<Longrightarrow> map digits [0..<n] = map (\<lambda>c. [c]) (map (\<lambda>i. char_of (48 + i)) [0..<n])"
  by (simp add: digits_small)

lemma left_component:
  assumes n: "n \<le> 10" "0 < n" and vs: "\<forall>v \<in> set vs. \<exists>i < n. v = Id i"
  shows "map (\<lambda>groups. Id (index_of (map digits [0..<n]) (groups ! 0)))
           (findall (strvar_pattern (map digits [0..<n])) (concat (map strvar_str vs))) = vs"
proof -
  from ids_of_component [OF vs] obtain ids where
    ids: "vs = map Id ids" "\<forall>i \<in> set ids. i < n" by blast
  let ?cs = "map (\<lambda>i. char_of (48 + i) :: char) [0..<n]"
  have small: "\<forall>i \<in> set ids. i < 10" using ids(2) n(1) by auto
  have xs: "concat (map strvar_str vs) = map (\<lambda>i. char_of (48 + i)) ids"
    unfolding ids(1) by (rule ids_chars [OF small])
  have cs: "?cs \<noteq> []" using n(2) by simp
  have sub: "set (map (\<lambda>i. char_of (48 + i) :: char) ids) \<subseteq> set ?cs"
    using ids(2) by auto
  have f: "findall (strvar_pattern (map digits [0..<n])) (concat (map strvar_str vs))
             = map (\<lambda>x. [[x]]) (map (\<lambda>i. char_of (48 + i)) ids)"
    unfolding findall_def strvar_pattern_def xs digits_as_chars [OF n(1)]
    by (rule findall_chars [OF cs sub])
  have "map (\<lambda>groups. Id (index_of (map digits [0..<n]) (groups ! 0)))
          (map (\<lambda>x. [[x]]) (map (\<lambda>i. char_of (48 + i)) ids))
        = map (\<lambda>i. Id (index_of (map digits [0..<n]) (digits i))) ids"
    using small by (simp add: digits_small)
  also have "\<dots> = map Id ids"
    using ids(2) n(1) by (simp add: index_of_digits)
  finally have r: "map (\<lambda>groups. Id (index_of (map digits [0..<n]) (groups ! 0)))
          (map (\<lambda>x. [[x]]) (map (\<lambda>i. char_of (48 + i)) ids)) = map Id ids" .
  show ?thesis by (simp only: f r) (simp only: ids(1))
qed

lemma left_component_word:
  assumes n: "n \<le> 10" and vs: "vs \<noteq> []" "\<forall>v \<in> set vs. \<exists>i < n. v = Id i"
  shows "word (concat (map strvar_str vs))"
proof -
  from ids_of_component [OF vs(2)] obtain ids where
    ids: "vs = map Id ids" "\<forall>i \<in> set ids. i < n" by blast
  have small: "\<forall>i \<in> set ids. i < 10" using ids(2) n by auto
  have "concat (map strvar_str vs) = map (\<lambda>i. char_of (48 + i)) ids"
    unfolding ids(1) by (rule ids_chars [OF small])
  moreover have "ids \<noteq> []" using vs(1) ids(1) by auto
  ultimately show ?thesis using small by (auto simp: word_def word_char_digit)
qed

lemma right_component:
  assumes n: "n \<le> 10"
    and num: "concat (map string_variables rhs) = map (\<lambda>i. [Id i]) [0..<n]"
    and el: "el \<in> set rhs" and vt: "vtup \<in> set (string_variables el)"
  shows "\<exists>i < n. vtup = [Id i]"
proof -
  from el vt have "vtup \<in> set (concat (map string_variables rhs))" by auto
  then show ?thesis unfolding num by auto
qed

lemma right_element:
  assumes n: "n \<le> 10"
    and num: "concat (map string_variables rhs) = map (\<lambda>i. [Id i]) [0..<n]"
    and el: "el \<in> set rhs"
  shows "map (\<lambda>sv. [Id (index_of (map digits [0..<n]) sv)]) (comp_strs el) = string_variables el"
    and "\<forall>w \<in> set (comp_strs el). word w"
proof -
  have each: "\<forall>vtup \<in> set (string_variables el). \<exists>i < n. vtup = [Id i]"
    using right_component [OF n num el] by blast
  have "map (\<lambda>sv. [Id (index_of (map digits [0..<n]) sv)])
          (map (\<lambda>vtup. concat (map strvar_str vtup)) (string_variables el))
        = map (\<lambda>vtup. vtup) (string_variables el)"
    unfolding map_map
  proof (rule map_cong [OF refl])
    fix vtup assume "vtup \<in> set (string_variables el)"
    with each obtain i where "i < n" "vtup = [Id i]" by blast
    with n show "((\<lambda>sv. [Id (index_of (map digits [0..<n]) sv)]) \<circ>
                   (\<lambda>vtup. concat (map strvar_str vtup))) vtup = vtup"
      by (simp add: index_of_digits)
  qed
  then show "map (\<lambda>sv. [Id (index_of (map digits [0..<n]) sv)]) (comp_strs el)
               = string_variables el"
    by (simp add: comp_strs_def)
  show "\<forall>w \<in> set (comp_strs el). word w"
  proof
    fix w assume "w \<in> set (comp_strs el)"
    then obtain vtup where "vtup \<in> set (string_variables el)" "w = concat (map strvar_str vtup)"
      by (auto simp: comp_strs_def)
    with each obtain i where "i < n" "w = digits i" by auto
    with n show "word w" by (simp add: word_digits)
  qed
qed

lemma strvars_of_right:
  assumes num: "concat (map string_variables rhs) = map (\<lambda>i. [Id i]) [0..<n]"
  shows "concat (map comp_strs rhs) = map digits [0..<n]"
proof -
  have "concat (map comp_strs rhs)
          = map (\<lambda>vtup. concat (map strvar_str vtup)) (concat (map string_variables rhs))"
    by (simp add: comp_strs_def [abs_def] map_concat comp_def)
  also have "\<dots> = map digits [0..<n]" unfolding num by simp
  finally show ?thesis .
qed

lemma round_trip_epsilon:
  assumes eps: "is_epsilon r" and V: "word (variable (left_side r))"
    and c: "tokens c" "string_variables (left_side r) = [map Word (map strip (split_comma c))]"
    and one: "string_variables (left_side r) = [[v]]"
  shows "from_string (rule_str r) = Inr r"
proof -
  from c(2) one have "map Word (map strip (split_comma c)) = [v]" by simp
  then obtain x where x: "split_comma c = [x]" "v = Word (strip x)"
    by (cases "split_comma c") auto
  from split_comma_single [OF x(1)] have nc: "CHR '','' \<notin> set c" and xc: "x = c" by simp_all
  define w where "w = strip c"
  from strip_tokens [OF c(1) nc]
  have w: "tokens w" "CHR '','' \<notin> set w" "strip w = w" unfolding w_def by simp_all
  have sv: "string_variables (left_side r) = [[Word w]]"
    using one x(2) xc by (simp add: w_def)
  from eps have rhs: "right_side r = []" by (simp add: is_epsilon_def)
  have cs: "comp_strs (left_side r) = [w]" by (simp add: comp_strs_def sv)
  have g: "good_element (left_side r)" "\<forall>el \<in> set (right_side r). good_element el"
    using V w cs rhs by (simp_all add: good_element_def)
  have t: "map (\<lambda>(var, svs). (var, map strip (split_comma svs)))
           (map (\<lambda>groups. (groups ! 0, groups ! 2)) (findall elem_pattern (rule_str r)))
         = [(variable (left_side r), [w])]"
    using elem_tuples_of_str [OF g] by (simp add: rhs cs)
  have v: "validate r = Inr ()"
    by (simp add: validate_def rhs is_epsilon_def)
  have "\<lparr>left_side = \<lparr>variable = variable (left_side r), string_variables = [map Word [w]]\<rparr>,
         right_side = []\<rparr> = r"
    using sv rhs
    by (metis (full_types) MCFGRule.surjective MCFGRuleElement.surjective list.simps(8,9)
          old.unit.exhaust)
  then show ?thesis
    unfolding from_string_def Let_def t using v by (simp add: construct_def)
qed

lemma round_trip_rule:
  assumes ne: "\<not> is_epsilon r" and valid: "validate r = Inr ()"
    and V: "word (variable (left_side r))" "\<forall>el \<in> set (right_side r). word (variable el)"
    and n: "n \<le> 10"
    and num: "concat (map string_variables (right_side r)) = map (\<lambda>i. [Id i]) [0..<n]"
    and rne: "\<forall>el \<in> set (right_side r). string_variables el \<noteq> []"
    and lne: "string_variables (left_side r) \<noteq> []"
    and lhs: "\<forall>vs \<in> set (string_variables (left_side r)). \<forall>v \<in> set vs. \<exists>i < n. v = Id i"
    and inner: "[] \<notin> set (butlast (string_variables (left_side r)))"
  shows "from_string (rule_str r) = Inr r"
proof -
  let ?rhs = "right_side r" and ?lhs = "left_side r"
  let ?strvars = "map digits [0..<n]"
  from ne have rhs_ne: "?rhs \<noteq> []" by (simp add: is_epsilon_def)
  then obtain e1 where e1: "e1 \<in> set ?rhs" by (cases ?rhs) auto
  with rne have "string_variables e1 \<noteq> []" by blast
  with e1 have "concat (map string_variables ?rhs) \<noteq> []" by auto
  then have pos: "0 < n" unfolding num by simp
  let ?comps = "string_variables ?lhs"
  let ?text = "\<lambda>vtup. concat (map strvar_str vtup)"
  have texts: "comp_strs ?lhs = map ?text ?comps" by (simp add: comp_strs_def)
  have wd: "\<forall>vs \<in> set ?comps. vs \<noteq> [] \<longrightarrow> word (?text vs)"
    using left_component_word [OF n] lhs by blast
  have plain: "\<forall>w \<in> set (comp_strs ?lhs). CHR '','' \<notin> set w \<and> strip w = w"
  proof
    fix w assume "w \<in> set (comp_strs ?lhs)"
    then obtain vs where vs: "vs \<in> set ?comps" "w = ?text vs" unfolding texts by auto
    show "CHR '','' \<notin> set w \<and> strip w = w"
    proof (cases "vs = []")
      case True
      with vs(2) show ?thesis by (simp add: strip_Nil)
    next
      case False
      with wd vs have "word w" by simp
      then show ?thesis by (simp add: word_no_comma strip_word)
    qed
  qed
  have split: "?comps = butlast ?comps @ [last ?comps]" using lne by simp
  have tok: "tokens (join '', '' (comp_strs ?lhs))"
  proof (cases "last ?comps = []")
    case False
    have "\<forall>vs \<in> set ?comps. vs \<noteq> []"
    proof
      fix vs assume "vs \<in> set ?comps"
      then have "vs \<in> set (butlast ?comps @ [last ?comps])" using split by simp
      then have "vs \<in> set (butlast ?comps) \<or> vs = last ?comps" by auto
      with inner False show "vs \<noteq> []" by auto
    qed
    with wd have "\<forall>w \<in> set (map ?text ?comps). word w" by auto
    moreover have "map ?text ?comps \<noteq> []" using lne by simp
    ultimately show ?thesis unfolding texts by (intro tokens_join(1))
  next
    case True
    have b: "butlast ?comps \<noteq> []"
    proof
      assume "butlast ?comps = []"
      with split True have "?comps = [[]]" by simp
      then have empty: "unique_string_variables ?lhs = {}"
        by (simp add: unique_string_variables_def)
      from \<open>string_variables e1 \<noteq> []\<close> obtain vtup where
        vtup: "vtup \<in> set (string_variables e1)" by (cases "string_variables e1") auto
      with right_component [OF n num e1] obtain i where "vtup = [Id i]" by blast
      with vtup have "vtup \<in> set (string_variables e1)" "vtup = [Id i]" by simp_all
      then have "Id i \<in> unique_string_variables e1"
        by (auto simp: unique_string_variables_def intro!: bexI [of _ "[Id i]"])
      with e1 have "(\<Union>el \<in> set ?rhs. unique_string_variables el) \<noteq> {}" by blast
      with valid ne empty show False
        by (simp add: validate_def split: if_splits)
    qed
    have "\<forall>w \<in> set (map ?text (butlast ?comps)). word w"
    proof
      fix w assume "w \<in> set (map ?text (butlast ?comps))"
      then obtain vs where vs: "vs \<in> set (butlast ?comps)" "w = ?text vs" by auto
      from vs(1) have "vs \<in> set ?comps" by (rule in_set_butlastD)
      moreover from vs(1) inner have "vs \<noteq> []" by auto
      ultimately show "word w" using wd vs(2) by simp
    qed
    moreover have "map ?text (butlast ?comps) \<noteq> []" using b by simp
    ultimately have "tokens (join '', '' (map ?text (butlast ?comps) @ [[]]))"
      by (intro tokens_join(2))
    moreover have "map ?text ?comps = map ?text (butlast ?comps) @ [[]]"
      by (subst split) (simp add: True del: append_butlast_last_id)
    ultimately show ?thesis unfolding texts by simp
  qed
  have gl: "good_element ?lhs"
    unfolding good_element_def using V(1) lne tok plain by (simp add: texts)
  have gr: "\<forall>el \<in> set ?rhs. good_element el"
  proof
    fix el assume el: "el \<in> set ?rhs"
    from right_element(2) [OF n num el] have w: "\<forall>w \<in> set (comp_strs el). word w" .
    from rne el have cne: "comp_strs el \<noteq> []" by (simp add: comp_strs_def)
    from tokens_join(1) [OF cne w] w V(2) el cne
    show "good_element el" by (simp add: good_element_def word_no_comma strip_word)
  qed
  have t: "map (\<lambda>(var, svs). (var, map strip (split_comma svs)))
           (map (\<lambda>groups. (groups ! 0, groups ! 2)) (findall elem_pattern (rule_str r)))
         = (variable ?lhs, comp_strs ?lhs) # map (\<lambda>el. (variable el, comp_strs el)) ?rhs"
    using elem_tuples_of_str [OF gl gr] by simp
  have len: "length ((variable ?lhs, comp_strs ?lhs) # map (\<lambda>el. (variable el, comp_strs el)) ?rhs) \<noteq> 1"
    using rhs_ne by simp
  have sv: "concat (map snd (map (\<lambda>el. (variable el, comp_strs el)) ?rhs)) = ?strvars"
    using strvars_of_right [OF num] by (simp add: comp_def)
  have dist: "distinct ?strvars" by (rule distinct_digits [OF n])
  have left: "map (\<lambda>vs. map (\<lambda>groups. Id (index_of ?strvars (groups ! 0)))
                         (findall (strvar_pattern ?strvars) vs)) (comp_strs ?lhs)
                = string_variables ?lhs"
  proof -
    have "map (\<lambda>vs. map (\<lambda>groups. Id (index_of ?strvars (groups ! 0)))
                         (findall (strvar_pattern ?strvars) vs))
              (map (\<lambda>vtup. concat (map strvar_str vtup)) (string_variables ?lhs))
            = map (\<lambda>vtup. vtup) (string_variables ?lhs)"
      unfolding map_map
    proof (rule map_cong [OF refl])
      fix vtup assume "vtup \<in> set (string_variables ?lhs)"
      with lhs have "\<forall>v \<in> set vtup. \<exists>i < n. v = Id i" by blast
      from left_component [OF n pos this]
      show "((\<lambda>vs. map (\<lambda>groups. Id (index_of ?strvars (groups ! 0)))
                         (findall (strvar_pattern ?strvars) vs)) \<circ>
             (\<lambda>vtup. concat (map strvar_str vtup))) vtup = vtup"
        by simp
    qed
    then show ?thesis by (simp add: comp_strs_def)
  qed
  have right: "map (\<lambda>(var, svs). \<lparr>variable = var,
                        string_variables = map (\<lambda>sv. [Id (index_of ?strvars sv)]) svs\<rparr>)
                   (map (\<lambda>el. (variable el, comp_strs el)) ?rhs) = ?rhs"
  proof -
    have "map (\<lambda>(var, svs). \<lparr>variable = var,
                        string_variables = map (\<lambda>sv. [Id (index_of ?strvars sv)]) svs\<rparr>)
                   (map (\<lambda>el. (variable el, comp_strs el)) ?rhs) = map (\<lambda>el. el) ?rhs"
      unfolding map_map
    proof (rule map_cong [OF refl])
      fix el assume el: "el \<in> set ?rhs"
      from right_element(1) [OF n num el]
      show "((\<lambda>(var, svs). \<lparr>variable = var,
                        string_variables = map (\<lambda>sv. [Id (index_of ?strvars sv)]) svs\<rparr>) \<circ>
             (\<lambda>el. (variable el, comp_strs el))) el = el"
        by simp
    qed
    then show ?thesis by simp
  qed
  have rec: "\<lparr>left_side = \<lparr>variable = variable ?lhs, string_variables = string_variables ?lhs\<rparr>,
         right_side = ?rhs\<rparr> = r"
    by simp
  have c: "construct r = Inr r" using valid by (simp add: construct_def)
  have len': "(length ((variable ?lhs, comp_strs ?lhs) #
                  map (\<lambda>el. (variable el, comp_strs el)) ?rhs) = 1) = False"
    using len by simp
  have dist': "distinct ?strvars = True" using dist by simp
  show ?thesis
    unfolding from_string_def Let_def t
    by (simp only: len' if_False if_True list.sel sv dist' not_True_eq_False list.case
          prod.case left right rec c)
qed

subsection \<open>The rules \<^verbatim>\<open>from_string\<close> returns\<close>

lemma match_here_Cons:
  "match_here adv (r # rs) s c = Some ns \<Longrightarrow>
     \<exists>n ms. ns = n # ms \<and> n \<in> set (ends r s) \<and> match_here adv rs (drop n s) (c + n) = Some ms"
proof -
  assume "match_here adv (r # rs) s c = Some ns"
  then have "first_of (\<lambda>n. map_option ((#) n) (match_here adv rs (drop n s) (c + n))) (ends r s)
               = Some ns" by simp
  from first_of_Some [OF this] show ?thesis by auto
qed

lemma match_here_Nil: "match_here adv [] s c = Some ns \<Longrightarrow> ns = []"
  by (auto split: if_splits)

lemma search_match:
  "search adv parts s = Some (k, ns) \<Longrightarrow> \<exists>adv'. match_here adv' parts (drop k s) 0 = Some ns"
proof (induction s arbitrary: adv k ns)
  case Nil
  then show ?case by (auto split: option.splits)
next
  case (Cons c s)
  show ?case
  proof (cases "match_here adv parts (c # s) 0")
    case (Some ms)
    with Cons.prems show ?thesis by auto
  next
    case None
    with Cons.prems obtain k' where "search False parts s = Some (k', ns)" "k = Suc k'" by auto
    with Cons.IH [of False k' ns] show ?thesis by simp
  qed
qed

lemma findall_from_items:
  "item \<in> set (findall_from adv parts s) \<Longrightarrow>
     \<exists>adv' t ns. match_here adv' parts t 0 = Some ns \<and> item = pieces ns t"
proof (induction adv parts s rule: findall_from.induct)
  case (1 must_advance parts s)
  show ?case
  proof (cases "search must_advance parts s")
    case None
    with 1(2) show ?thesis by (subst (asm) findall_from.simps) simp
  next
    case (Some kn)
    obtain k ns where kn: "kn = (k, ns)" by (cases kn)
    from 1(2) Some kn have "item = pieces ns (drop k s) \<or>
        item \<in> set (findall_from (sum_list ns = 0) parts (drop (k + sum_list ns) s))"
      by (subst (asm) findall_from.simps) simp
    then show ?thesis
    proof
      assume "item = pieces ns (drop k s)"
      with search_match [of must_advance parts s k ns] Some kn show ?thesis by auto
    next
      assume "item \<in> set (findall_from (sum_list ns = 0) parts (drop (k + sum_list ns) s))"
      with 1(1) [OF Some kn [symmetric]] show ?thesis by simp
    qed
  qed
qed

lemma greedy_plus_pos:
  assumes "\<And>s n. n \<in> set (f s) \<Longrightarrow> 0 < n"
  shows "n \<in> set (greedy_plus k f s) \<Longrightarrow> 0 < n"
proof (induction k arbitrary: n s)
  case 0
  then show ?case by simp
next
  case (Suc k)
  from Suc.prems have "n \<in> set (f s) \<or>
      (\<exists>a b. n = a + b \<and> a \<in> set (f s) \<and> 0 < a \<and> b \<in> set (greedy_plus k f (drop a s)))"
    unfolding greedy_plus_set by blast
  then show ?case using assms by auto
qed

lemma ends_word_pos: "n \<in> set (ends (Plus WordChar) s) \<Longrightarrow> 0 < n"
proof -
  assume "n \<in> set (ends (Plus WordChar) s)"
  then have n: "n \<in> set (greedy_plus (Suc (length s)) (ends WordChar) s)"
    by (simp del: greedy_plus.simps)
  have "\<And>s n. n \<in> set (ends WordChar s) \<Longrightarrow> 0 < n"
    by (auto split: list.splits if_splits)
  from greedy_plus_pos [of "ends WordChar", OF this n] show ?thesis .
qed

lemma ends_word_take: "n \<in> set (ends (Plus WordChar) s) \<Longrightarrow> word (take n s)"
proof -
  assume n: "n \<in> set (ends (Plus WordChar) s)"
  from consumesD [OF ends_consumes [OF leaves_word] n]
  have le: "n \<le> length s" and ch: "\<forall>i < n. word_char (s ! i)" by blast+
  from ends_word_pos [OF n] le have "take n s \<noteq> []" by auto
  moreover have "\<forall>c \<in> set (take n s). word_char c"
  proof
    fix c assume "c \<in> set (take n s)"
    then obtain i where "i < length (take n s)" "take n s ! i = c" by (auto simp: in_set_conv_nth)
    with ch le show "word_char c" by auto
  qed
  ultimately show ?thesis by (simp add: word_def)
qed

lemma separator_take:
  "n \<in> set (ends (Seq (Opt (Lit CHR '','')) (Opt (Lit CHR '' ''))) s) \<Longrightarrow> separator (take n s)"
  by (cases s) (auto simp: separator_def split: list.splits if_splits)

lemma token_take:
  assumes "n \<in> set (ends token_re s)"
  shows "\<exists>w sep. word w \<and> separator sep \<and> take n s = w @ sep"
proof -
  from assms obtain a b where n: "n = a + b" and a: "a \<in> set (ends (Plus WordChar) s)"
    and b: "b \<in> set (ends (Seq (Opt (Lit CHR '','')) (Opt (Lit CHR '' ''))) (drop a s))"
    unfolding token_re_def ends_Seq_set [of "Plus WordChar"] by blast
  have "take n s = take a s @ take b (drop a s)" unfolding n by (rule take_add)
  with ends_word_take [OF a] separator_take [OF b] show ?thesis by blast
qed

lemma lazy_tokens_take:
  "n \<in> set (lazy_plus k (ends token_re) s) \<Longrightarrow> tokens (take n s)"
proof (induction k arbitrary: n s)
  case 0
  then show ?case by simp
next
  case (Suc k)
  from Suc.prems have "n \<in> set (ends token_re s) \<or>
      (\<exists>a m. n = a + m \<and> a \<in> set (ends token_re s) \<and>
             m \<in> set (lazy_plus k (ends token_re) (drop a s)))"
    unfolding lazy_plus_set by blast
  then show ?case
  proof
    assume "n \<in> set (ends token_re s)"
    from token_take [OF this] obtain w sep where "word w" "separator sep" "take n s = w @ sep"
      by blast
    then show ?thesis using tokens.last_token [of w sep] by simp
  next
    assume "\<exists>a m. n = a + m \<and> a \<in> set (ends token_re s) \<and>
               m \<in> set (lazy_plus k (ends token_re) (drop a s))"
    then obtain a m where n: "n = a + m" and a: "a \<in> set (ends token_re s)"
      and m: "m \<in> set (lazy_plus k (ends token_re) (drop a s))" by blast
    from token_take [OF a] obtain w sep where ws: "word w" "separator sep" "take a s = w @ sep"
      by blast
    have "take n s = take a s @ take m (drop a s)" unfolding n by (rule take_add)
    with ws(3) have "take n s = w @ sep @ take m (drop a s)" by simp
    with tokens.next_token [OF ws(1,2) Suc.IH [OF m]] show ?thesis by simp
  qed
qed

lemma elem_item_tokens:
  assumes "item \<in> set (findall elem_pattern s)"
  shows "tokens (item ! 2)"
proof -
  from findall_from_items [OF assms [unfolded findall_def]] obtain adv t ns where
    m: "match_here adv elem_pattern t 0 = Some ns" and item: "item = pieces ns t" by blast
  from match_here_Cons [OF m [unfolded elem_pattern_token]] obtain n1 ms1 where
    1: "ns = n1 # ms1"
    "match_here adv [Lit CHR ''('', LazyPlus token_re, Lit CHR '')''] (drop n1 t) (0 + n1) = Some ms1"
    by blast
  from match_here_Cons [OF 1(2)] obtain n2 ms2 where
    2: "ms1 = n2 # ms2"
    "match_here adv [LazyPlus token_re, Lit CHR '')''] (drop n2 (drop n1 t)) (0 + n1 + n2) = Some ms2"
    by blast
  from match_here_Cons [OF 2(2)] obtain n3 ms3 where
    3: "ms2 = n3 # ms3" "n3 \<in> set (ends (LazyPlus token_re) (drop n2 (drop n1 t)))"
    by blast
  from 3(2) have "tokens (take n3 (drop n2 (drop n1 t)))"
    by (simp del: lazy_plus.simps add: lazy_tokens_take)
  with item 1(1) 2(1) 3(1) show ?thesis by simp
qed

lemma elem_item_word:
  assumes "item \<in> set (findall elem_pattern s)"
  shows "word (item ! 0)"
proof -
  from findall_from_items [OF assms [unfolded findall_def]] obtain adv t ns where
    m: "match_here adv elem_pattern t 0 = Some ns" and item: "item = pieces ns t" by blast
  from match_here_Cons [OF m [unfolded elem_pattern_def]] obtain n ms where
    "ns = n # ms" "n \<in> set (ends (Plus WordChar) t)" by blast
  with item ends_word_take [of n t] show ?thesis by simp
qed

lemma ends_literal_take: "n \<in> set (ends (literal w) t) \<Longrightarrow> take n t = w"
proof (induction w arbitrary: n t)
  case Nil
  then show ?case by simp
next
  case (Cons c w)
  from Cons.prems obtain x t' where t: "t = x # t'" by (cases t) auto
  with Cons.prems have x: "x = c" and "n \<in> (+) 1 ` set (ends (literal w) t')"
    by (auto split: if_splits)
  then obtain m where m: "m \<in> set (ends (literal w) t')" "n = Suc m" by auto
  from Cons.IH [OF m(1)] t x m(2) show ?case by simp
qed

lemma ends_alternatives_take:
  "ws \<noteq> [] \<Longrightarrow> n \<in> set (ends (alternatives ws) t) \<Longrightarrow> take n t \<in> set ws"
proof (induction ws rule: list_nonempty_induct)
  case (single w)
  then show ?case using ends_literal_take by simp
next
  case (cons w ws)
  then obtain w' ws' where ws: "ws = w' # ws'" by (cases ws) auto
  from cons.prems have "n \<in> set (ends (literal w) t) \<or> n \<in> set (ends (alternatives ws) t)"
    by (simp add: ws)
  then show ?case using ends_literal_take [of n w t] cons.IH by auto
qed

lemma strvar_item:
  assumes "ws \<noteq> []" "item \<in> set (findall (strvar_pattern ws) s)"
  shows "item ! 0 \<in> set ws"
proof -
  from findall_from_items [OF assms(2) [unfolded findall_def]] obtain adv t ns where
    m: "match_here adv (strvar_pattern ws) t 0 = Some ns" and item: "item = pieces ns t" by blast
  from match_here_Cons [OF m [unfolded strvar_pattern_def]] obtain n ms where
    "ns = n # ms" "n \<in> set (ends (alternatives ws) t)" by blast
  with item ends_alternatives_take [OF assms(1), of n t] show ?thesis by simp
qed

lemma index_of_less: "x \<in> set xs \<Longrightarrow> index_of xs x < length xs"
  by (induction xs) auto

lemma index_of_all: "distinct xs \<Longrightarrow> map (index_of xs) xs = [0..<length xs]"
proof (rule nth_equalityI)
  show "length (map (index_of xs) xs) = length [0..<length xs]" by simp
next
  fix i assume d: "distinct xs" and "i < length (map (index_of xs) xs)"
  then have i: "i < length xs" by simp
  with index_of_nth [OF d i] show "map (index_of xs) xs ! i = [0..<length xs] ! i" by simp
qed

lemma from_string_shape:
  assumes "from_string s = Inr r"
  shows "word (variable (left_side r)) \<and> (\<forall>el \<in> set (right_side r). word (variable el)) \<and>
         (is_epsilon r \<longrightarrow>
            (\<exists>c. tokens c \<and>
                 string_variables (left_side r) = [map Word (map strip (split_comma c))])) \<and>
         (\<not> is_epsilon r \<longrightarrow>
            (\<exists>n. concat (map string_variables (right_side r)) = map (\<lambda>i. [Id i]) [0..<n] \<and>
                 (\<forall>el \<in> set (right_side r). string_variables el \<noteq> []) \<and>
                 string_variables (left_side r) \<noteq> [] \<and>
                 (\<forall>vs \<in> set (string_variables (left_side r)). \<forall>v \<in> set vs. \<exists>i < n. v = Id i)))"
proof -
  define tuples where
    "tuples = map (\<lambda>(var, svs). (var, map strip (split_comma svs)))
                (map (\<lambda>groups. (groups ! 0, groups ! 2)) (findall elem_pattern s))"
  have tw: "\<forall>t \<in> set tuples. word (fst t) \<and> snd t \<noteq> []"
    unfolding tuples_def using elem_item_word [of _ s] split_comma_nonempty by auto
  have tc: "\<forall>t \<in> set tuples. \<exists>c. tokens c \<and> snd t = map strip (split_comma c)"
    unfolding tuples_def using elem_item_tokens [of _ s] by auto
  show ?thesis
  proof (cases "length tuples = 1")
    case True
    then obtain t where t: "tuples = [t]" by (cases tuples) auto
    from assms True have
      "r = \<lparr>left_side = \<lparr>variable = fst (tuples ! 0),
                          string_variables = [map Word (snd (tuples ! 0))]\<rparr>,
            right_side = []\<rparr>"
      unfolding from_string_def Let_def tuples_def [symmetric]
      by (auto simp: construct_def split: sum.splits)
    with tw tc t show ?thesis by (auto simp: is_epsilon_def simp del: map_map)
  next
    case False
    define strvars where "strvars = concat (map snd (tl tuples))"
    from assms False have d: "distinct strvars"
      unfolding from_string_def Let_def tuples_def [symmetric] strvars_def [symmetric]
      by (auto split: if_splits)
    from assms False d obtain var0 svs0 rest where
      tuples: "tuples = (var0, svs0) # rest"
      and r: "r = \<lparr>left_side =
                     \<lparr>variable = var0,
                      string_variables =
                        map (\<lambda>vs. map (\<lambda>groups. Id (index_of strvars (groups ! 0)))
                                     (findall (strvar_pattern strvars) vs)) svs0\<rparr>,
                   right_side =
                     map (\<lambda>(var, svs).
                            \<lparr>variable = var,
                             string_variables = map (\<lambda>sv. [Id (index_of strvars sv)]) svs\<rparr>)
                         rest\<rparr>"
      unfolding from_string_def Let_def tuples_def [symmetric] strvars_def [symmetric]
      by (auto simp: construct_def split: if_splits list.splits sum.splits prod.splits)
    from False tuples have rest: "rest \<noteq> []" by auto
    have sv: "strvars = concat (map snd rest)" by (simp add: strvars_def tuples)
    from tw tuples have w0: "word var0" "svs0 \<noteq> []"
      and wr: "\<forall>t \<in> set rest. word (fst t) \<and> snd t \<noteq> []" by auto
    from rest wr have sne: "strvars \<noteq> []" unfolding sv by (cases rest) auto
    let ?n = "length strvars"
    have num: "concat (map string_variables (right_side r)) = map (\<lambda>i. [Id i]) [0..<?n]"
    proof -
      have "concat (map string_variables (right_side r))
              = map (\<lambda>sv. [Id (index_of strvars sv)]) (concat (map snd rest))"
        unfolding r by (simp add: map_concat comp_def case_prod_beta)
      also have "\<dots> = map (\<lambda>i. [Id i]) (map (index_of strvars) strvars)"
        by (simp add: sv comp_def)
      finally show ?thesis by (simp only: index_of_all [OF d])
    qed
    have rne: "\<forall>el \<in> set (right_side r). string_variables el \<noteq> []"
      unfolding r using wr by auto
    have rw: "\<forall>el \<in> set (right_side r). word (variable el)"
      unfolding r using wr by auto
    have lne: "string_variables (left_side r) \<noteq> []"
      unfolding r using w0(2) by simp
    have lhs: "\<forall>vs \<in> set (string_variables (left_side r)). \<forall>v \<in> set vs. \<exists>i < ?n. v = Id i"
    proof (intro ballI)
      fix vs v assume "vs \<in> set (string_variables (left_side r))" "v \<in> set vs"
      then obtain t groups where "groups \<in> set (findall (strvar_pattern strvars) t)"
        "v = Id (index_of strvars (groups ! 0))"
        unfolding r by auto
      with strvar_item [OF sne] index_of_less [of _ strvars]
      show "\<exists>i < ?n. v = Id i" by blast
    qed
    have "word (variable (left_side r))" unfolding r using w0(1) by simp
    moreover have "\<not> is_epsilon r" unfolding r using rest by (simp add: is_epsilon_def)
    ultimately show ?thesis using rw num rne lne lhs by blast
  qed
qed

subsection \<open>The claim about the round trip\<close>

lemma eleven_parsed:
  "from_string ''A(a, b, c, d, e, f, g, h, i, j, k) -> B(a, b, c, d, e, f) C(g, h, i, j, k)''
     = Inr rule_eleven"
  by code_simp

lemma eleven_str:
  "rule_str rule_eleven
     = ''A(0, 1, 2, 3, 4, 5, 6, 7, 8, 9, 10) -> B(0, 1, 2, 3, 4, 5) C(6, 7, 8, 9, 10)''"
  by code_simp

lemma eleven_reparsed:
  "from_string ''A(0, 1, 2, 3, 4, 5, 6, 7, 8, 9, 10) -> B(0, 1, 2, 3, 4, 5) C(6, 7, 8, 9, 10)''
     = Inl ValueError"
  by code_simp

lemma the_a_round:
  "from_string ''D(the, a)'' = Inr rule_the_a \<and>
   rule_str rule_the_a = ''D(thea)'' \<and>
   from_string ''D(thea)''
     = Inr \<lparr>left_side = \<lparr>variable = ''D'', string_variables = [[Word ''thea'']]\<rparr>,
            right_side = []\<rparr>"
  by code_simp

lemma rule_1_parsed: "from_string ''VPwhrc(v, uw) -> Vpres(u) Sbarwhrc(v, w)'' = Inr rule_1"
  by code_simp

lemma rule_2_parsed: "from_string ''D(the)'' = Inr rule_2"
  by code_simp

lemma the_cat_parsed: "from_string ''D(the cat)'' = Inr rule_the_cat"
  by code_simp

lemma e_acute_parsed: "from_string [CHR ''D'', CHR ''('', CHR 0xE9, CHR '')''] = Inr rule_e_acute"
  by code_simp

lemma empty_last_parsed: "from_string ''A(uv, x) -> B(u) C(v)'' = Inr rule_empty_last"
  by code_simp

lemma empty_first_round:
  "from_string ''A(x, uv) -> B(u) C(v)'' = Inr rule_empty_first \<and>
   rule_str rule_empty_first = ''A(, 01) -> B(0) C(1)'' \<and>
   from_string ''A(, 01) -> B(0) C(1)'' = Inl ValueError"
  by code_simp

text \<open>
  Claim C8, as amended. Let \<^verbatim>\<open>from_string\<close> accept a rule string and return the rule
  \<open>r\<close>. If \<open>r\<close> is an \<open>\<epsilon>\<close>-rule with exactly one literal, or if \<open>r\<close> has a right side
  with at most ten string variables and no left-side component of \<open>r\<close> other than the last
  is empty, then \<^verbatim>\<open>from_string\<close> accepts the text \<^verbatim>\<open>str(r)\<close> and returns a rule equal
  to \<open>r\<close>.
\<close>

theorem round_trip:
  assumes "from_string s = Inr r"
    and "if is_epsilon r then length (concat (string_variables (left_side r))) = 1
         else length (concat (map string_variables (right_side r))) \<le> 10 \<and>
              [] \<notin> set (butlast (string_variables (left_side r)))"
  shows "from_string (rule_str r) = Inr r"
proof -
  from from_string_shape [OF assms(1)]
  have names: "word (variable (left_side r))" "\<forall>el \<in> set (right_side r). word (variable el)"
    and lits: "is_epsilon r \<longrightarrow>
            (\<exists>c. tokens c \<and>
                 string_variables (left_side r) = [map Word (map strip (split_comma c))])"
    and shape: "\<not> is_epsilon r \<longrightarrow>
            (\<exists>n. concat (map string_variables (right_side r)) = map (\<lambda>i. [Id i]) [0..<n] \<and>
                 (\<forall>el \<in> set (right_side r). string_variables el \<noteq> []) \<and>
                 string_variables (left_side r) \<noteq> [] \<and>
                 (\<forall>vs \<in> set (string_variables (left_side r)). \<forall>v \<in> set vs. \<exists>i < n. v = Id i))"
    by blast+
  show ?thesis
  proof (cases "is_epsilon r")
    case True
    with lits obtain c where c: "tokens c"
      "string_variables (left_side r) = [map Word (map strip (split_comma c))]" by blast
    from assms(2) True have "length (map Word (map strip (split_comma c))) = 1"
      by (simp add: c(2))
    then obtain v where "map Word (map strip (split_comma c)) = [v]"
      by (cases "map Word (map strip (split_comma c))") auto
    with c(2) have "string_variables (left_side r) = [[v]]" by simp
    with True names(1) c show ?thesis by (rule round_trip_epsilon)
  next
    case False
    with shape obtain n where
      num: "concat (map string_variables (right_side r)) = map (\<lambda>i. [Id i]) [0..<n]"
      and rne: "\<forall>el \<in> set (right_side r). string_variables el \<noteq> []"
      and lne: "string_variables (left_side r) \<noteq> []"
      and ids: "\<forall>vs \<in> set (string_variables (left_side r)). \<forall>v \<in> set vs. \<exists>i < n. v = Id i"
      by blast
    from assms(2) False have "length (concat (map string_variables (right_side r))) \<le> 10"
      and inner: "[] \<notin> set (butlast (string_variables (left_side r)))" by simp_all
    then have n: "n \<le> 10" unfolding num by simp
    from assms(1) have v: "validate r = Inr ()" by (rule from_string_valid)
    show ?thesis by (rule round_trip_rule [OF False v names n num rne lne ids inner])
  qed
qed

theorem round_trip_witness:
  "from_string (rule_str rule_1) = Inr rule_1 \<and>
   from_string (rule_str rule_2) = Inr rule_2 \<and>
   from_string (rule_str rule_the_cat) = Inr rule_the_cat \<and>
   from_string (rule_str rule_e_acute) = Inr rule_e_acute \<and>
   from_string (rule_str rule_empty_last) = Inr rule_empty_last"
proof -
  have 1: "if is_epsilon rule_1 then length (concat (string_variables (left_side rule_1))) = 1
         else length (concat (map string_variables (right_side rule_1))) \<le> 10 \<and>
              [] \<notin> set (butlast (string_variables (left_side rule_1)))"
    by (simp add: rule_1_def is_epsilon_def)
  have 2: "if is_epsilon rule_2 then length (concat (string_variables (left_side rule_2))) = 1
         else length (concat (map string_variables (right_side rule_2))) \<le> 10 \<and>
              [] \<notin> set (butlast (string_variables (left_side rule_2)))"
    by (simp add: rule_2_def is_epsilon_def)
  have 3: "if is_epsilon rule_the_cat
         then length (concat (string_variables (left_side rule_the_cat))) = 1
         else length (concat (map string_variables (right_side rule_the_cat))) \<le> 10 \<and>
              [] \<notin> set (butlast (string_variables (left_side rule_the_cat)))"
    by (simp add: rule_the_cat_def is_epsilon_def)
  have 4: "if is_epsilon rule_e_acute
         then length (concat (string_variables (left_side rule_e_acute))) = 1
         else length (concat (map string_variables (right_side rule_e_acute))) \<le> 10 \<and>
              [] \<notin> set (butlast (string_variables (left_side rule_e_acute)))"
    by (simp add: rule_e_acute_def is_epsilon_def)
  have 5: "if is_epsilon rule_empty_last
         then length (concat (string_variables (left_side rule_empty_last))) = 1
         else length (concat (map string_variables (right_side rule_empty_last))) \<le> 10 \<and>
              [] \<notin> set (butlast (string_variables (left_side rule_empty_last)))"
    by (simp add: rule_empty_last_def is_epsilon_def)
  show ?thesis
    using round_trip [OF rule_1_parsed 1] round_trip [OF rule_2_parsed 2]
      round_trip [OF the_cat_parsed 3] round_trip [OF e_acute_parsed 4]
      round_trip [OF empty_last_parsed 5]
    by simp
qed

text \<open>
  Without the conditions the round trip fails. A rule with eleven string variables prints
  the id 10 as \<^verbatim>\<open>10\<close>, which is read back as the ids 1 and 0, and the constructor
  rejects the result. The \<open>\<epsilon>\<close>-rule of \<^verbatim>\<open>"D(the, a)"\<close> prints its two literals as
  \<^verbatim>\<open>D(thea)\<close>, which is read back as one literal. The rule of
  \<^verbatim>\<open>"A(x, uv) -> B(u) C(v)"\<close>, whose first left-side component is empty, prints as
  \<^verbatim>\<open>A(, 01) -> B(0) C(1)\<close>, in which the pattern of an element finds the two right-side
  elements only, and the constructor rejects the result.
\<close>

theorem round_trip_counterexample:
  "from_string ''A(a, b, c, d, e, f, g, h, i, j, k) -> B(a, b, c, d, e, f) C(g, h, i, j, k)''
     = Inr rule_eleven \<and>
   from_string (rule_str rule_eleven) = Inl ValueError \<and>
   from_string ''D(the, a)'' = Inr rule_the_a \<and>
   from_string (rule_str rule_the_a)
     = Inr \<lparr>left_side = \<lparr>variable = ''D'', string_variables = [[Word ''thea'']]\<rparr>,
            right_side = []\<rparr> \<and>
   from_string ''A(x, uv) -> B(u) C(v)'' = Inr rule_empty_first \<and>
   from_string (rule_str rule_empty_first) = Inl ValueError"
  using eleven_parsed eleven_reparsed the_a_round empty_first_round
  by (simp only: eleven_str)

end
